theory Spec2Isabelle
  imports Main "HOL-Library.Word"
begin

section \<open>Buffers and text formatting\<close>

text \<open>
  A Node \<open>Buffer\<close> is a list of bytes. \<open>subarray\<close> (and \<open>slice\<close>, which on a
  Buffer is the same view) clamps its bounds to the buffer, as \<open>take\<close> and \<open>drop\<close> do.
\<close>

type_synonym byte = "8 word"
type_synonym buffer = "byte list"

definition subarray :: "buffer \<Rightarrow> nat \<Rightarrow> nat \<Rightarrow> buffer" where
  "subarray buf s e = take (e - s) (drop s buf)"

definition slice_from :: "buffer \<Rightarrow> nat \<Rightarrow> buffer" where
  "slice_from buf s = drop s buf"

text \<open>\<open>buf.toString('hex')\<close>: two lower-case hexadecimal digits per byte.\<close>

definition hex_digit :: "nat \<Rightarrow> char" where
  "hex_digit n = ''0123456789abcdef'' ! n"

definition hex_byte :: "byte \<Rightarrow> string" where
  "hex_byte b = [hex_digit (unat b div 16), hex_digit (unat b mod 16)]"

definition to_hex :: "buffer \<Rightarrow> string" where
  "to_hex buf = concat (map hex_byte buf)"

text \<open>
  The template literal \<open>${chunk[i]}\<close> prints a byte in decimal without leading zeros;
  an index outside the buffer reads \<open>undefined\<close> and prints as that word.
\<close>

definition digit_char :: "nat \<Rightarrow> char" where
  "digit_char n = ''0123456789'' ! n"

fun dec :: "nat \<Rightarrow> string" where
  "dec n = (if n < 10 then [digit_char n] else dec (n div 10) @ [digit_char (n mod 10)])"

declare dec.simps [simp del]

definition elem :: "buffer \<Rightarrow> nat \<Rightarrow> string" where
  "elem buf i = (if i < length buf then dec (unat (buf ! i)) else ''undefined'')"

section \<open>The two include-list builders: stream handlers\<close>

text \<open>
  The variables captured by the handlers of one builder invocation: the \<open>seen\<close> set of
  hexadecimal keys, the \<open>remainder\<close> buffer (\<open>null\<close> is \<open>None\<close>), and the strings
  handed to \<open>out.write\<close>, oldest first.
\<close>

record builder =
  seen :: "string set"
  remainder :: "buffer option"
  out :: "string list"

definition fresh :: builder where
  "fresh = \<lparr>seen = {}, remainder = None, out = []\<rparr>"

definition line24 :: "buffer \<Rightarrow> nat \<Rightarrow> string" where
  "line24 chunk i =
     elem chunk i @ ''.'' @ elem chunk (i + 1) @ ''.'' @ elem chunk (i + 2) @ ''.0/24'' @ [CHR 0x0A]"

definition lineIps :: "buffer \<Rightarrow> nat \<Rightarrow> string" where
  "lineIps chunk i =
     elem chunk i @ ''.'' @ elem chunk (i + 1) @ ''.'' @ elem chunk (i + 2) @ ''.''
       @ elem chunk (i + 3) @ [CHR 0x0A]"

text \<open>The \<open>for\<close> loop of \<open>buildInclude24s\<close>, from index \<open>i\<close> on.\<close>

function loop24 :: "buffer \<Rightarrow> nat \<Rightarrow> builder \<Rightarrow> builder" where
  "loop24 chunk i st =
     (if i < (length chunk div 6) * 6 then
        (let key = to_hex (subarray chunk i (i + 3)) in
         if key \<in> seen st then loop24 chunk (i + 6) st
         else loop24 chunk (i + 6)
                (st\<lparr>seen := insert key (seen st), out := out st @ [line24 chunk i]\<rparr>))
      else st)"
  by pat_completeness auto
termination
  by (relation "measure (\<lambda>(chunk, i, st). (length chunk div 6) * 6 - i)") auto

declare loop24.simps [simp del]

text \<open>The \<open>for\<close> loop of \<open>buildIncludeIps\<close>.\<close>

function loopIps :: "buffer \<Rightarrow> nat \<Rightarrow> builder \<Rightarrow> builder" where
  "loopIps chunk i st =
     (if i < (length chunk div 6) * 6 then
        (let key = to_hex (subarray chunk i (i + 4)) in
         if key \<in> seen st then loopIps chunk (i + 6) st
         else loopIps chunk (i + 6)
                (st\<lparr>seen := insert key (seen st), out := out st @ [lineIps chunk i]\<rparr>))
      else st)"
  by pat_completeness auto
termination
  by (relation "measure (\<lambda>(chunk, i, st). (length chunk div 6) * 6 - i)") auto

declare loopIps.simps [simp del]

text \<open>
  The \<open>'data'\<close> handlers. A pending remainder is a Buffer object and therefore truthy,
  so it is prepended whenever it is not \<open>null\<close>.
\<close>

definition prepend :: "buffer option \<Rightarrow> buffer \<Rightarrow> buffer" where
  "prepend r chunk = (case r of None \<Rightarrow> chunk | Some b \<Rightarrow> b @ chunk)"

definition new_remainder :: "buffer \<Rightarrow> buffer option" where
  "new_remainder chunk =
     (if length chunk mod 6 = 0 then None
      else Some (slice_from chunk ((length chunk div 6) * 6)))"

definition on_data24 :: "builder \<Rightarrow> buffer \<Rightarrow> builder" where
  "on_data24 st chunk0 =
     (let chunk = prepend (remainder st) chunk0;
          st' = loop24 chunk 0 st
      in st'\<lparr>remainder := new_remainder chunk\<rparr>)"

definition on_dataIps :: "builder \<Rightarrow> buffer \<Rightarrow> builder" where
  "on_dataIps st chunk0 =
     (let chunk = prepend (remainder st) chunk0;
          st' = loopIps chunk 0 st
      in st'\<lparr>remainder := new_remainder chunk\<rparr>)"

text \<open>
  The record reader that both loops share: the loop header visits the windows
  \<open>[i, i + 6)\<close> for \<open>i = 0, 6, ...\<close> below \<open>floor(len / 6) * 6\<close>, and the statement
  after the loop keeps the tail. \<open>reader_data\<close> is the \<open>'data'\<close> handler with the
  loop body replaced by "emit the window".
\<close>

function windows :: "buffer \<Rightarrow> nat \<Rightarrow> buffer list" where
  "windows chunk i =
     (if i < (length chunk div 6) * 6
      then subarray chunk i (i + 6) # windows chunk (i + 6)
      else [])"
  by pat_completeness auto
termination
  by (relation "measure (\<lambda>(chunk, i). (length chunk div 6) * 6 - i)") auto

declare windows.simps [simp del]

record reader =
  pending :: "buffer option"
  emitted :: "buffer list"

definition reader_init :: reader where
  "reader_init = \<lparr>pending = None, emitted = []\<rparr>"

definition reader_data :: "reader \<Rightarrow> buffer \<Rightarrow> reader" where
  "reader_data rd chunk0 =
     (let chunk = prepend (pending rd) chunk0
      in \<lparr>pending = new_remainder chunk, emitted = emitted rd @ windows chunk 0\<rparr>)"

text \<open>One loop body applied to one emitted 6-byte record.\<close>

definition body24 :: "buffer \<Rightarrow> builder \<Rightarrow> builder" where
  "body24 r st =
     (let key = to_hex (subarray r 0 3) in
      if key \<in> seen st then st
      else st\<lparr>seen := insert key (seen st), out := out st @ [line24 r 0]\<rparr>)"

definition bodyIps :: "buffer \<Rightarrow> builder \<Rightarrow> builder" where
  "bodyIps r st =
     (let key = to_hex (subarray r 0 4) in
      if key \<in> seen st then st
      else st\<lparr>seen := insert key (seen st), out := out st @ [lineIps r 0]\<rparr>)"

section \<open>Promises, stream events and the file system\<close>

text \<open>
  Errors are values. A system error carries its code and the call that failed, as Node's
  error objects do; any other thrown value is \<open>Other\<close>.
\<close>

datatype errcode = ENOENT | EACCES | EISDIR | ENOSPC | EIO

datatype syscall = Stat | Open | Read | Write

datatype err = SysError errcode syscall | Other string

text \<open>
  What the runtime delivers to a builder while it runs: the events of the read stream
  (\<open>'data'\<close>, \<open>'end'\<close>, \<open>'error'\<close>) and an \<open>'error'\<close> event of the write stream
  \<open>out\<close>. A read stream delivers some \<open>'data'\<close> events and then one \<open>'end'\<close> or
  one \<open>'error'\<close>.
\<close>

datatype event = Data buffer | End | SrcError err | OutError err

datatype promise = Pending | Fulfilled | Rejected err

text \<open>\<open>resolve\<close> and \<open>reject\<close> settle a pending promise and do nothing to a settled one.\<close>

definition settle :: "promise \<Rightarrow> promise \<Rightarrow> promise" where
  "settle p q = (case p of Pending \<Rightarrow> q | _ \<Rightarrow> p)"

text \<open>
  One builder invocation: the captured variables, the promise it returned, whether
  \<open>out.end()\<close> has been called, and the error of an \<open>'error'\<close> event that found no
  listener. Both builders register listeners for \<open>'data'\<close>, \<open>'end'\<close> and
  \<open>'error'\<close> on the read stream and none on \<open>out\<close>; an \<open>'error'\<close> event without a
  listener is thrown by the emitter outside the promise and ends the process, so no later
  event is handled.
\<close>

record run =
  vars :: builder
  promise :: promise
  out_ended :: bool
  uncaught :: "err option"

definition start :: run where
  "start = \<lparr>vars = fresh, promise = Pending, out_ended = False, uncaught = None\<rparr>"

fun handle24 :: "run \<Rightarrow> event \<Rightarrow> run" where
  "handle24 s (Data chunk) = s\<lparr>vars := on_data24 (vars s) chunk\<rparr>"
| "handle24 s End = s\<lparr>out_ended := True, promise := settle (promise s) Fulfilled\<rparr>"
| "handle24 s (SrcError e) = s\<lparr>promise := settle (promise s) (Rejected e)\<rparr>"
| "handle24 s (OutError e) = s\<lparr>uncaught := Some e\<rparr>"

fun handleIps :: "run \<Rightarrow> event \<Rightarrow> run" where
  "handleIps s (Data chunk) = s\<lparr>vars := on_dataIps (vars s) chunk\<rparr>"
| "handleIps s End = s\<lparr>out_ended := True, promise := settle (promise s) Fulfilled\<rparr>"
| "handleIps s (SrcError e) = s\<lparr>promise := settle (promise s) (Rejected e)\<rparr>"
| "handleIps s (OutError e) = s\<lparr>uncaught := Some e\<rparr>"

fun deliver :: "(run \<Rightarrow> event \<Rightarrow> run) \<Rightarrow> run \<Rightarrow> event list \<Rightarrow> run" where
  "deliver h s [] = s"
| "deliver h s (ev # evs) = (if uncaught s \<noteq> None then s else deliver h (h s ev) evs)"

text \<open>
  \<open>buildInclude24s\<close>: the executor creates \<open>out\<close>, then calls \<open>statSync\<close>. If that
  throws, the executor is left before the read stream exists and the promise constructor
  rejects the promise with the thrown error. \<open>buildIncludeIps\<close> has no such call.
  The arguments are what the runtime answers: the result of \<open>statSync\<close> and the events.
\<close>

definition buildInclude24s_on :: "err + nat \<Rightarrow> event list \<Rightarrow> run" where
  "buildInclude24s_on stat evs =
     (case stat of
        Inl e \<Rightarrow> start\<lparr>promise := Rejected e\<rparr>
      | Inr sz \<Rightarrow> deliver handle24 start evs)"

definition buildIncludeIps_on :: "event list \<Rightarrow> run" where
  "buildIncludeIps_on evs = deliver handleIps start evs"

text \<open>
  The file system as a map from paths to contents. \<open>statSync\<close> of a missing path throws
  \<open>ENOENT\<close> from \<open>stat\<close>; a read stream on a missing path emits an \<open>'error'\<close> event
  with \<open>ENOENT\<close> from \<open>open\<close>. A read stream on an existing file delivers its bytes
  in non-empty chunks whose sizes the runtime chooses (\<open>sizes\<close>: each entry \<open>n\<close> is a
  chunk of \<open>n + 1\<close> bytes, and what is left when the list runs out comes as one chunk),
  and then \<open>'end'\<close>.
\<close>

type_synonym filesys = "string \<rightharpoonup> buffer"

definition statSync :: "filesys \<Rightarrow> string \<Rightarrow> err + nat" where
  "statSync fs file =
     (case fs file of None \<Rightarrow> Inl (SysError ENOENT Stat) | Some bytes \<Rightarrow> Inr (length bytes))"

fun chop :: "nat list \<Rightarrow> buffer \<Rightarrow> buffer list" where
  "chop ns [] = []"
| "chop [] bs = [bs]"
| "chop (n # ns) bs = take (Suc n) bs # chop ns (drop (Suc n) bs)"

definition createReadStream :: "filesys \<Rightarrow> string \<Rightarrow> nat list \<Rightarrow> event list" where
  "createReadStream fs file sizes =
     (case fs file of
        None \<Rightarrow> [SrcError (SysError ENOENT Open)]
      | Some bytes \<Rightarrow> map Data (chop sizes bytes) @ [End])"

definition buildInclude24s :: "filesys \<Rightarrow> string \<Rightarrow> nat list \<Rightarrow> run" where
  "buildInclude24s fs file sizes =
     buildInclude24s_on (statSync fs file) (createReadStream fs file sizes)"

definition buildIncludeIps :: "filesys \<Rightarrow> string \<Rightarrow> nat list \<Rightarrow> run" where
  "buildIncludeIps fs file sizes = buildIncludeIps_on (createReadStream fs file sizes)"

text \<open>
  \<open>fs.createWriteStream('includeFile.txt')\<close> opens with flag \<open>w\<close>: the file is
  truncated, and the strings written (ASCII only, so one byte per character) follow from
  offset 0. \<open>written\<close> is the content of \<open>includeFile.txt\<close> after a run.
\<close>

definition utf8 :: "string \<Rightarrow> buffer" where
  "utf8 s = map of_char s"

definition written :: "run \<Rightarrow> buffer" where
  "written s = utf8 (concat (out (vars s)))"

definition after_build :: "filesys \<Rightarrow> run \<Rightarrow> filesys" where
  "after_build fs s = fs(''includeFile.txt'' \<mapsto> written s)"

section \<open>The pipeline\<close>

text \<open>
  \<open>config.json\<close> is read once; its recognised options are the fields below.
  \<open>packetLimit\<close> is kept as the text that the template literal prints for it.
\<close>

record git_config =
  push :: bool
  username :: string
  email :: string
  url :: string
  branch :: string

record config =
  c_sudo :: bool
  c_packetLimit :: string
  c_scanPort :: bool
  c_scan24s :: bool
  c_scanAllPorts :: bool
  c_git :: git_config

text \<open>
  The calls the pipeline makes to its collaborators, in the order it makes them, each
  with how it ended: \<open>Ok\<close> (the awaited promise is fulfilled), \<open>Throw\<close> (it is
  rejected, or the call throws), \<open>Crash\<close> (the process ends on an uncaught error),
  \<open>Hang\<close> (the promise never settles), \<open>Exited\<close> (\<open>process.exit()\<close>).
\<close>

datatype git_op =
    SimpleGit
  | AddConfig string string
  | GetRemotes
  | RemoveRemote string
  | AddRemote string string
  | GitAdd string
  | Commit string
  | Push string string

datatype call =
    Masscan string string string
  | MinecraftCheck string string string "string list"
  | BuildInclude24s string
  | BuildIncludeIps string
  | Git git_op
  | ConsoleLog string
  | ConsoleError string err
  | ProcessExit

datatype status = Ok | Throw err | Crash err | Hang | Exited

text \<open>
  The state of a run: the files, the calls made so far, and \<open>pending_error\<close>, the
  \<open>'error'\<close> event of a stream without listener that has been raised and is still to
  be delivered.
\<close>

record world =
  files :: filesys
  trace :: "(call \<times> status) list"
  pending_error :: "err option"

definition init_world :: "filesys \<Rightarrow> world" where
  "init_world fs = \<lparr>files = fs, trace = [], pending_error = None\<rparr>"

text \<open>
  The collaborators are parameters: \<open>masscan.js\<close> and \<open>minecraftCheck.js\<close> end in
  some status and leave some file system; the runtime answers \<open>statSync\<close> and chooses
  the events a builder receives; each call of the git client is fulfilled or rejected;
  \<open>git_remotes\<close> are the names \<open>getRemotes\<close> returns and \<open>now_ms\<close> is
  \<open>Date.now()\<close>.
\<close>

record env =
  masscan_run :: "string \<Rightarrow> string \<Rightarrow> string \<Rightarrow> filesys \<Rightarrow> status \<times> filesys"
  minecraftCheck_run :: "string \<Rightarrow> string \<Rightarrow> string \<Rightarrow> string list \<Rightarrow> filesys \<Rightarrow> status \<times> filesys"
  stat_answer :: "string \<Rightarrow> filesys \<Rightarrow> err + nat"
  stream_events :: "string \<Rightarrow> filesys \<Rightarrow> event list"
  git_run :: "git_op \<Rightarrow> err option"
  git_remotes :: "string list"
  now_ms :: nat

type_synonym action = "world \<Rightarrow> status \<times> world"

text \<open>\<open>await a; b\<close> inside an async function: \<open>b\<close> runs only when \<open>a\<close> ended \<open>Ok\<close>.\<close>

definition then_do :: "action \<Rightarrow> action \<Rightarrow> action" where
  "then_do a b w = (case a w of (Ok, w') \<Rightarrow> b w' | (s, w') \<Rightarrow> (s, w'))"

definition when_do :: "bool \<Rightarrow> action \<Rightarrow> action" where
  "when_do c a w = (if c then a w else (Ok, w))"

text \<open>\<open>try { a } catch (err) { h err }\<close> catches what is thrown and nothing else.\<close>

definition try_catch :: "action \<Rightarrow> (err \<Rightarrow> action) \<Rightarrow> action" where
  "try_catch a h w = (case a w of (Throw e, w') \<Rightarrow> h e w' | (s, w') \<Rightarrow> (s, w'))"

definition record_call :: "call \<Rightarrow> status \<Rightarrow> world \<Rightarrow> world" where
  "record_call c s w = w\<lparr>trace := trace w @ [(c, s)]\<rparr>"

text \<open>
  An awaited call hands control back to the event loop. A pending unhandled error is
  delivered while that call is in flight and ends the process there: the call is in the
  trace, as started, and its status is the crash.
\<close>

definition awaiting :: "call \<Rightarrow> action \<Rightarrow> action" where
  "awaiting c a w =
     (case pending_error w of
        Some e \<Rightarrow> (Crash e, record_call c (Crash e) w)
      | None \<Rightarrow> a w)"

definition call_masscan :: "env \<Rightarrow> string \<Rightarrow> string \<Rightarrow> string \<Rightarrow> action" where
  "call_masscan ev cmd outfile tag =
     awaiting (Masscan cmd outfile tag)
       (\<lambda>w. case masscan_run ev cmd outfile tag (files w) of
          (s, fs') \<Rightarrow> (s, (record_call (Masscan cmd outfile tag) s w)\<lparr>files := fs'\<rparr>))"

definition call_minecraftCheck ::
    "env \<Rightarrow> string \<Rightarrow> string \<Rightarrow> string \<Rightarrow> string list \<Rightarrow> action" where
  "call_minecraftCheck ev infile outfile tag rest =
     awaiting (MinecraftCheck infile outfile tag rest)
       (\<lambda>w. case minecraftCheck_run ev infile outfile tag rest (files w) of
          (s, fs') \<Rightarrow>
            (s, (record_call (MinecraftCheck infile outfile tag rest) s w)\<lparr>files := fs'\<rparr>))"

text \<open>
  What \<open>await\<close> sees of a builder's promise. A pending promise of a process that an
  uncaught error has ended is a crash; a pending promise otherwise never settles. Once
  the promise is settled the caller goes on (or throws). An error of \<open>out\<close> that was
  raised after that is the \<open>late_error\<close> of the run: the caller has resumed before the
  event is delivered, and the event is delivered during the next awaited call.
\<close>

definition await_build :: "run \<Rightarrow> status" where
  "await_build r =
     (case promise r of
        Fulfilled \<Rightarrow> Ok
      | Rejected e \<Rightarrow> Throw e
      | Pending \<Rightarrow> (case uncaught r of Some e \<Rightarrow> Crash e | None \<Rightarrow> Hang))"

definition late_error :: "run \<Rightarrow> err option" where
  "late_error r = (case promise r of Pending \<Rightarrow> None | _ \<Rightarrow> uncaught r)"

definition call_buildInclude24s :: "env \<Rightarrow> string \<Rightarrow> action" where
  "call_buildInclude24s ev file =
     awaiting (BuildInclude24s file)
       (\<lambda>w. let r = buildInclude24s_on (stat_answer ev file (files w))
                       (stream_events ev file (files w));
                 s = await_build r
             in (s, (record_call (BuildInclude24s file) s w)
                      \<lparr>files := after_build (files w) r, pending_error := late_error r\<rparr>))"

definition call_buildIncludeIps :: "env \<Rightarrow> string \<Rightarrow> action" where
  "call_buildIncludeIps ev file =
     awaiting (BuildIncludeIps file)
       (\<lambda>w. let r = buildIncludeIps_on (stream_events ev file (files w));
                 s = await_build r
             in (s, (record_call (BuildIncludeIps file) s w)
                      \<lparr>files := after_build (files w) r, pending_error := late_error r\<rparr>))"

definition sudo_prefix :: "config \<Rightarrow> string" where
  "sudo_prefix cfg = (if c_sudo cfg then ''sudo '' else [])"

definition scanDefaultPort :: "config \<Rightarrow> env \<Rightarrow> action" where
  "scanDefaultPort cfg ev =
     (let cmd = sudo_prefix cfg @ ''masscan -p 25565 0.0.0.0/0 --rate='' @ c_packetLimit cfg
                  @ '' --excludefile exclude.conf -oJ -''
      in then_do (call_masscan ev cmd ''ipsUnfiltered_pass1'' ''[1] [Java]'')
                 (call_minecraftCheck ev ''ipsUnfiltered_pass1'' ''ips'' ''[1] [Java]'' []))"

definition scanNearPorts :: "config \<Rightarrow> env \<Rightarrow> action" where
  "scanNearPorts cfg ev =
     then_do (call_buildInclude24s ev ''ips'')
       (let cmd = sudo_prefix cfg
                  @ ''masscan -p 25500-25564,25566-25700 --include-file includeFile.txt --rate=''
                  @ c_packetLimit cfg @ '' --excludefile exclude.conf -oJ -''
        in then_do (call_masscan ev cmd ''ipsUnfiltered_pass2'' ''[2] [Java]'')
                   (call_minecraftCheck ev ''ipsUnfiltered_pass2'' ''ips'' ''[2] [Java]''
                      [''java'', ''a'']))"

definition scanAllPorts :: "config \<Rightarrow> env \<Rightarrow> action" where
  "scanAllPorts cfg ev =
     then_do (call_buildIncludeIps ev ''ips'')
       (let cmd = sudo_prefix cfg
                  @ ''masscan -p 1024-25499,25701-65535 --include-file includeFile.txt --rate=''
                  @ c_packetLimit cfg @ '' --excludefile exclude.conf -oJ -''
        in then_do (call_masscan ev cmd ''ipsUnfiltered_pass3'' ''[3] [Java]'')
                   (call_minecraftCheck ev ''ipsUnfiltered_pass3'' ''ips'' ''[3] [Java]''
                      [''java'', ''a'']))"

text \<open>
  \<open>simpleGit()\<close> is an ordinary call; every method of the client it returns is awaited.
\<close>

definition git_result :: "env \<Rightarrow> git_op \<Rightarrow> status" where
  "git_result ev op = (case git_run ev op of None \<Rightarrow> Ok | Some e \<Rightarrow> Throw e)"

definition git_new :: "env \<Rightarrow> action" where
  "git_new ev w = (git_result ev SimpleGit, record_call (Git SimpleGit) (git_result ev SimpleGit) w)"

definition git_call :: "env \<Rightarrow> git_op \<Rightarrow> action" where
  "git_call ev op =
     awaiting (Git op) (\<lambda>w. (git_result ev op, record_call (Git op) (git_result ev op) w))"

definition console_log :: "string \<Rightarrow> action" where
  "console_log msg w = (Ok, record_call (ConsoleLog msg) Ok w)"

definition console_error :: "string \<Rightarrow> err \<Rightarrow> action" where
  "console_error msg e w = (Ok, record_call (ConsoleError msg e) Ok w)"

definition pushToGit :: "config \<Rightarrow> env \<Rightarrow> action" where
  "pushToGit cfg ev =
     try_catch
       (then_do (git_new ev)
       (then_do (git_call ev (AddConfig ''user.name'' (username (c_git cfg))))
       (then_do (git_call ev (AddConfig ''user.email'' (email (c_git cfg))))
       (then_do (git_call ev GetRemotes)
       (then_do (when_do (''origin'' \<in> set (git_remotes ev))
                   (git_call ev (RemoveRemote ''origin'')))
       (then_do (git_call ev (AddRemote ''origin'' (url (c_git cfg))))
       (then_do (git_call ev (GitAdd ''ips''))
       (then_do (git_call ev (Commit (dec (now_ms ev div 1000))))
       (then_do (git_call ev (Push ''origin'' (branch (c_git cfg))))
                (console_log ''Pushed to repo.''))))))))))
       (\<lambda>e. console_error ''Error pushing to repo:'' e)"

definition process_exit :: action where
  "process_exit w = (Exited, record_call ProcessExit Exited w)"

definition main :: "config \<Rightarrow> env \<Rightarrow> action" where
  "main cfg ev =
     then_do (when_do (c_scanPort cfg) (scanDefaultPort cfg ev))
    (then_do (when_do (c_scan24s cfg) (scanNearPorts cfg ev))
    (then_do (when_do (c_scanAllPorts cfg) (scanAllPorts cfg ev))
    (then_do (when_do (push (c_git cfg)) (pushToGit cfg ev))
             process_exit)))"

text \<open>Classification of calls, used to state what a run does and does not do.\<close>

fun stage2_call :: "call \<Rightarrow> bool" where
  "stage2_call (BuildInclude24s file) = True"
| "stage2_call (Masscan cmd outfile tag) = (outfile = ''ipsUnfiltered_pass2'')"
| "stage2_call (MinecraftCheck infile outfile tag rest) = (infile = ''ipsUnfiltered_pass2'')"
| "stage2_call _ = False"

fun stage3_call :: "call \<Rightarrow> bool" where
  "stage3_call (BuildIncludeIps file) = True"
| "stage3_call (Masscan cmd outfile tag) = (outfile = ''ipsUnfiltered_pass3'')"
| "stage3_call (MinecraftCheck infile outfile tag rest) = (infile = ''ipsUnfiltered_pass3'')"
| "stage3_call _ = False"

fun publish_call :: "call \<Rightarrow> bool" where
  "publish_call (Git op) = True"
| "publish_call (ConsoleLog msg) = True"
| "publish_call (ConsoleError msg e) = True"
| "publish_call _ = False"

definition calls :: "status \<times> world \<Rightarrow> call list" where
  "calls r = map fst (trace (snd r))"

section \<open>Reference notions used to state the properties\<close>

text \<open>The complete 6-byte records of a log, and the partial tail after them.\<close>

fun records_of :: "buffer \<Rightarrow> buffer list" where
  "records_of (a # b # c # d # e # f # rest) = [a, b, c, d, e, f] # records_of rest"
| "records_of _ = []"

definition tail_of :: "buffer \<Rightarrow> buffer" where
  "tail_of log = drop (6 * (length log div 6)) log"

text \<open>Position of the first occurrence of an element (the length, if there is none).\<close>

definition first_pos :: "'a \<Rightarrow> 'a list \<Rightarrow> nat" where
  "first_pos x xs = length (takeWhile (\<lambda>y. y \<noteq> x) xs)"

text \<open>The elements of a list at their first occurrence, in order.\<close>

fun first_seen :: "'a set \<Rightarrow> 'a list \<Rightarrow> 'a list" where
  "first_seen S [] = []"
| "first_seen S (x # xs) =
     (if x \<in> S then first_seen S xs else x # first_seen (insert x S) xs)"

definition key3 :: "buffer \<Rightarrow> buffer" where
  "key3 r = take 3 r"

definition key4 :: "buffer \<Rightarrow> buffer" where
  "key4 r = take 4 r"

text \<open>
  Notions for traces. An entry is \<open>settled\<close> when its call ended \<open>Ok\<close> or belongs to
  the publish step; an action \<open>keeps\<close> a property of entries when it adds only entries
  that have it; a result is \<open>fail_fast\<close> when no entry follows an unsettled one and the
  status of a run that did not end \<open>Ok\<close> is the status of its last call.
\<close>

definition settled :: "call \<times> status \<Rightarrow> bool" where
  "settled x = (snd x = Ok \<or> publish_call (fst x))"

definition keeps :: "(call \<times> status \<Rightarrow> bool) \<Rightarrow> action \<Rightarrow> bool" where
  "keeps P a = (\<forall>w. (\<forall>x\<in>set (trace w). P x) \<longrightarrow> (\<forall>x\<in>set (trace (snd (a w))). P x))"

definition fail_fast :: "status \<times> world \<Rightarrow> bool" where
  "fail_fast r =
     ((\<forall>x\<in>set (butlast (trace (snd r))). settled x)
      \<and> (fst r = Ok \<longrightarrow> (\<forall>x\<in>set (trace (snd r)). settled x))
      \<and> (fst r \<noteq> Ok \<longrightarrow> trace (snd r) \<noteq> [] \<and> snd (last (trace (snd r))) = fst r))"

text \<open>
  An action \<open>stops_on_failure\<close> when, started on a settled trace, it ends fail-fast; it
  \<open>may_throw\<close> when, started with no error pending, it ends \<open>Ok\<close> or by throwing and
  leaves none pending; it is \<open>ok_clears\<close> when, started with no error pending, it leaves
  none pending if it ends \<open>Ok\<close>; it \<open>reports_last\<close> when a run of it that does not
  end \<open>Ok\<close> has the status of its last call. A result \<open>reaches_done\<close> when its last call is
  \<open>process.exit()\<close>. In a trace, publish \<open>failures_logged\<close> says that every rejected
  git call has its \<open>console.error\<close> entry.
\<close>

definition stops_on_failure :: "action \<Rightarrow> bool" where
  "stops_on_failure a = (\<forall>w. (\<forall>x\<in>set (trace w). settled x) \<longrightarrow> fail_fast (a w))"

definition may_throw :: "action \<Rightarrow> bool" where
  "may_throw a =
     (\<forall>w. pending_error w = None \<longrightarrow>
        (fst (a w) = Ok \<or> (\<exists>e. fst (a w) = Throw e)) \<and> pending_error (snd (a w)) = None)"

definition ok_clears :: "action \<Rightarrow> bool" where
  "ok_clears a =
     (\<forall>w. pending_error w = None \<longrightarrow> fst (a w) = Ok \<longrightarrow> pending_error (snd (a w)) = None)"

definition reports_last :: "action \<Rightarrow> bool" where
  "reports_last a =
     (\<forall>w. fst (a w) \<noteq> Ok \<longrightarrow>
        trace (snd (a w)) \<noteq> [] \<and> snd (last (trace (snd (a w)))) = fst (a w))"

definition reaches_done :: "status \<times> world \<Rightarrow> bool" where
  "reaches_done r = (fst r = Exited \<and> trace (snd r) \<noteq> []
                     \<and> last (trace (snd r)) = (ProcessExit, Exited))"

definition failures_logged :: "(call \<times> status) list \<Rightarrow> bool" where
  "failures_logged tr =
     (\<forall>op e. (Git op, Throw e) \<in> set tr \<longrightarrow>
        (ConsoleError ''Error pushing to repo:'' e, Ok) \<in> set tr)"

text \<open>
  Inside the \<open>try\<close> block a rejected git call is either already logged or is the error
  being thrown; \<open>logs_or_throws\<close> is an action that keeps it so.
\<close>

definition logged_or_thrown :: "status \<times> world \<Rightarrow> bool" where
  "logged_or_thrown r =
     (\<forall>op e. (Git op, Throw e) \<in> set (trace (snd r)) \<longrightarrow>
        (ConsoleError ''Error pushing to repo:'' e, Ok) \<in> set (trace (snd r))
        \<or> fst r = Throw e)"

definition logs_or_throws :: "action \<Rightarrow> bool" where
  "logs_or_throws a = (\<forall>w. failures_logged (trace w) \<longrightarrow> logged_or_thrown (a w))"

text \<open>A configuration with every step enabled, and the same with publishing turned off.\<close>

definition no_push :: "config \<Rightarrow> config" where
  "no_push cfg = cfg\<lparr>c_git := (c_git cfg)\<lparr>push := False\<rparr>\<rparr>"

definition example_config :: config where
  "example_config =
     \<lparr>c_sudo = True, c_packetLimit = ''1000'', c_scanPort = True, c_scan24s = True,
      c_scanAllPorts = True,
      c_git = \<lparr>push = True, username = ''u'', email = ''e'', url = ''x'', branch = ''b''\<rparr>\<rparr>"

text \<open>
  An environment in which the scans and validations succeed, the validator leaves two
  records in its output file, the streams are fault-free, and \<open>git add\<close> fails.
\<close>

definition example_env :: env where
  "example_env =
     \<lparr>masscan_run = (\<lambda>cmd outfile tag fs. (Ok, fs)),
      minecraftCheck_run = (\<lambda>infile outfile tag rest fs.
         (Ok, fs(outfile \<mapsto> [10, 0, 0, 1, 99, 221, 10, 0, 0, 2, 99, 221]))),
      stat_answer = (\<lambda>file fs. statSync fs file),
      stream_events = (\<lambda>file fs. createReadStream fs file [3, 1]),
      git_run = (\<lambda>op. if op = GitAdd ''ips'' then Some (Other ''index.lock'') else None),
      git_remotes = [''origin''],
      now_ms = 1700000000123\<rparr>"

text \<open>
  The same environment with a full disk: the write to \<open>includeFile.txt\<close> fails after
  the read stream has ended. The configuration runs Stage 3 and the publish step.
\<close>

definition disk_full_env :: env where
  "disk_full_env =
     example_env\<lparr>stream_events :=
       (\<lambda>file fs. createReadStream fs file [3, 1] @ [OutError (SysError ENOSPC Write)])\<rparr>"

definition stage3_config :: config where
  "stage3_config = example_config\<lparr>c_scanPort := False, c_scan24s := False\<rparr>"

text \<open>Length of the remainder carried from one chunk to the next (\<open>null\<close> is 0).\<close>

definition pending_len :: "builder \<Rightarrow> nat" where
  "pending_len st = (case remainder st of None \<Rightarrow> 0 | Some r \<Rightarrow> length r)"

text \<open>The projected keys of a log's complete records, in log order.\<close>

definition keys3 :: "buffer \<Rightarrow> buffer list" where
  "keys3 log = map key3 (records_of log)"

definition keys4 :: "buffer \<Rightarrow> buffer list" where
  "keys4 log = map key4 (records_of log)"

section \<open>Keys and lines determine each other\<close>

lemma hex_digit_inj_aux:
  "\<forall>m\<in>{0..<16::nat}. \<forall>n\<in>{0..<16}. hex_digit m = hex_digit n \<longrightarrow> m = n"
  by code_simp

lemma hex_digit_inj: "m < 16 \<Longrightarrow> n < 16 \<Longrightarrow> hex_digit m = hex_digit n \<Longrightarrow> m = n"
  using hex_digit_inj_aux by simp

lemma digit_char_inj_aux:
  "\<forall>m\<in>{0..<10::nat}. \<forall>n\<in>{0..<10}. digit_char m = digit_char n \<longrightarrow> m = n"
  by code_simp

lemma digit_char_inj: "m < 10 \<Longrightarrow> n < 10 \<Longrightarrow> digit_char m = digit_char n \<Longrightarrow> m = n"
  using digit_char_inj_aux by simp

lemma digit_char_not_dot_aux: "\<forall>m\<in>{0..<10::nat}. digit_char m \<noteq> CHR ''.''"
  by code_simp

lemma digit_char_not_dot: "m < 10 \<Longrightarrow> digit_char m \<noteq> CHR ''.''" "m < 10 \<Longrightarrow> CHR ''.'' \<noteq> digit_char m"
  using digit_char_not_dot_aux by auto

lemma hex_byte_inj: "hex_byte a = hex_byte b \<Longrightarrow> a = b"
proof -
  assume h: "hex_byte a = hex_byte b"
  have la: "unat a div 16 < 16" and lb: "unat b div 16 < 16"
    using unsigned_less [of a, where ?'a = nat] unsigned_less [of b, where ?'a = nat] by simp_all
  from h have "unat a div 16 = unat b div 16" and "unat a mod 16 = unat b mod 16"
    using la lb by (auto simp: hex_byte_def intro: hex_digit_inj)
  then have "unat a = unat b"
    by (metis div_mult_mod_eq)
  then show "a = b" by (simp add: word_unat_eq_iff)
qed

lemma to_hex_inj: "to_hex xs = to_hex ys \<Longrightarrow> xs = ys"
proof (induction xs arbitrary: ys)
  case Nil
  then show ?case by (cases ys) (simp_all add: to_hex_def hex_byte_def)
next
  case (Cons x xs)
  then show ?case
  proof (cases ys)
    case Nil
    with Cons.prems show ?thesis by (simp add: to_hex_def hex_byte_def)
  next
    case (Cons y ys')
    with Cons.prems have "hex_byte x = hex_byte y" "to_hex xs = to_hex ys'"
      by (simp_all add: to_hex_def hex_byte_def)
    with Cons.IH Cons show ?thesis by (simp add: hex_byte_inj)
  qed
qed

lemma dec_nonempty: "dec n \<noteq> []"
  by (subst dec.simps) simp

lemma dec_no_dot: "CHR ''.'' \<notin> set (dec n)"
proof (induction n rule: dec.induct)
  case (1 n)
  show ?case
  proof (cases "n < 10")
    case True
    then show ?thesis by (subst dec.simps) (simp add: digit_char_not_dot)
  next
    case False
    then show ?thesis using 1 by (subst dec.simps) (simp add: digit_char_not_dot)
  qed
qed

lemma dec_inj: "dec m = dec n \<Longrightarrow> m = n"
proof (induction m arbitrary: n rule: dec.induct)
  case (1 m)
  show ?case
  proof (cases "m < 10")
    case True
    note m = this
    show ?thesis
    proof (cases "n < 10")
      case True
      with m "1.prems" show ?thesis
        by (simp add: dec.simps [of m] dec.simps [of n] digit_char_inj)
    next
      case False
      with m "1.prems" dec_nonempty [of "n div 10"] show ?thesis
        by (simp add: dec.simps [of m] dec.simps [of n] append_eq_Cons_conv)
    qed
  next
    case False
    note m = this
    show ?thesis
    proof (cases "n < 10")
      case True
      with m "1.prems" dec_nonempty [of "m div 10"] show ?thesis
        by (simp add: dec.simps [of m] dec.simps [of n] Cons_eq_append_conv)
    next
      case False
      with m "1.prems" have e: "dec (m div 10) = dec (n div 10)"
        and d: "digit_char (m mod 10) = digit_char (n mod 10)"
        by (simp_all add: dec.simps [of m] dec.simps [of n])
      from "1.IH" [OF m e] have "m div 10 = n div 10" .
      moreover from d have "m mod 10 = n mod 10" by (simp add: digit_char_inj)
      ultimately show ?thesis by (metis div_mult_mod_eq)
    qed
  qed
qed

lemma split_at_dot:
  "CHR ''.'' \<notin> set xs \<Longrightarrow> CHR ''.'' \<notin> set ys \<Longrightarrow>
   xs @ CHR ''.'' # r = ys @ CHR ''.'' # s \<Longrightarrow> xs = ys \<and> r = s"
proof (induction xs arbitrary: ys)
  case Nil
  then show ?case by (cases ys) auto
next
  case (Cons x xs)
  then show ?case by (cases ys) auto
qed

section \<open>Framing: windows of a chunk and records of a log\<close>

lemma records_of_short: "length xs < 6 \<Longrightarrow> records_of xs = []"
  by (cases xs rule: records_of.cases) auto

lemma records_of_six: "length xs = 6 \<Longrightarrow> records_of (xs @ ys) = xs # records_of ys"
  by (cases xs rule: records_of.cases) auto

lemma records_of_append_aligned:
  "length xs mod 6 = 0 \<Longrightarrow> records_of (xs @ ys) = records_of xs @ records_of ys"
proof (induction xs rule: records_of.induct)
  case (1 a b c d e f rest)
  then have "length rest mod 6 = 0" by simp
  with 1 show ?case by simp
qed auto

lemma length_records_of: "length (records_of xs) = length xs div 6"
  by (induction xs rule: records_of.induct) auto

lemma length_tail_of: "length (tail_of xs) = length xs mod 6"
  by (simp add: tail_of_def minus_mult_div_eq_mod)

lemma aligned_le: "6 * (n div 6) \<le> (n::nat)"
  by simp

lemma aligned_step:
  assumes "i mod 6 = 0" and "i < (n div 6) * 6"
  shows "i + 6 \<le> (n::nat)"
proof -
  from assms(1) obtain k where k: "i = 6 * k" by (auto simp: mod_eq_0_iff_dvd)
  with assms(2) have "k < n div 6" by simp
  then have "6 * (k + 1) \<le> 6 * (n div 6)" by simp
  also have "\<dots> \<le> n" by (rule aligned_le)
  finally show ?thesis using k by simp
qed

lemma aligned_stop:
  assumes "i mod 6 = 0" and "\<not> i < (n div 6) * 6"
  shows "(n::nat) - i < 6"
proof -
  from assms(1) obtain k where k: "i = 6 * k" by (auto simp: mod_eq_0_iff_dvd)
  with assms(2) have q: "n div 6 \<le> k" by simp
  have "n = 6 * (n div 6) + n mod 6" by simp
  moreover have "n mod 6 < 6" by simp
  ultimately have "n < 6 * (n div 6) + 6" by linarith
  with q k show ?thesis by simp
qed

lemma length_head: "length (take (6 * (length xs div 6)) xs) = 6 * (length xs div 6)"
  using aligned_le [of "length xs"] by simp

lemma head_tail_of: "take (6 * (length xs div 6)) xs @ tail_of xs = xs"
  by (simp add: tail_of_def)

lemma records_of_append:
  "records_of (xs @ ys) = records_of xs @ records_of (tail_of xs @ ys)"
proof -
  let ?h = "take (6 * (length xs div 6)) xs"
  have len: "length ?h mod 6 = 0" by (simp only: length_head) simp
  have short: "records_of (tail_of xs) = []"
    by (rule records_of_short) (simp add: length_tail_of)
  have "records_of xs = records_of (?h @ tail_of xs)" by (simp add: head_tail_of)
  also have "\<dots> = records_of ?h" using len short by (simp add: records_of_append_aligned)
  finally have a: "records_of xs = records_of ?h" .
  have "records_of (xs @ ys) = records_of (?h @ (tail_of xs @ ys))"
    by (simp only: append_assoc [symmetric] head_tail_of)
  also have "\<dots> = records_of ?h @ records_of (tail_of xs @ ys)"
    using len by (rule records_of_append_aligned)
  finally show ?thesis using a by simp
qed

lemma tail_of_append: "tail_of (tail_of xs @ ys) = tail_of (xs @ ys)"
proof -
  let ?m = "6 * (length xs div 6)"
  let ?h = "take ?m xs"
  let ?t = "tail_of xs @ ys"
  have lh: "length ?h = ?m" by (rule length_head)
  have "tail_of (xs @ ys) = tail_of (?h @ ?t)"
    by (simp only: append_assoc [symmetric] head_tail_of)
  also have "\<dots> = drop (6 * ((?m + length ?t) div 6)) (?h @ ?t)"
    by (simp only: tail_of_def length_append lh)
  also have "(?m + length ?t) div 6 = length xs div 6 + length ?t div 6" by simp
  also have "drop (6 * (length xs div 6 + length ?t div 6)) (?h @ ?t) = drop (6 * (length ?t div 6)) ?t"
    using lh by (simp add: distrib_left)
  finally show ?thesis by (simp add: tail_of_def)
qed

lemma windows_records_of:
  "i mod 6 = 0 \<Longrightarrow> windows chunk i = records_of (drop i chunk)"
proof (induction chunk i rule: windows.induct)
  case (1 chunk i)
  show ?case
  proof (cases "i < (length chunk div 6) * 6")
    case True
    with "1.prems" have le: "i + 6 \<le> length chunk" by (simp add: aligned_step)
    have "drop i chunk = take 6 (drop i chunk) @ drop 6 (drop i chunk)"
      by (simp only: append_take_drop_id)
    then have split: "drop i chunk = subarray chunk i (i + 6) @ drop (i + 6) chunk"
      by (simp add: subarray_def add.commute)
    have "length (subarray chunk i (i + 6)) = 6" using le by (simp add: subarray_def)
    then have "records_of (drop i chunk)
        = subarray chunk i (i + 6) # records_of (drop (i + 6) chunk)"
      by (subst split) (rule records_of_six)
    moreover have "windows chunk (i + 6) = records_of (drop (i + 6) chunk)"
      using "1.IH" [OF True] "1.prems" by simp
    ultimately show ?thesis using True by (simp add: windows.simps [of chunk i])
  next
    case False
    with "1.prems" have "length chunk - i < 6" by (simp add: aligned_stop)
    then have "length (drop i chunk) < 6" by simp
    then show ?thesis using False
      by (simp add: windows.simps [of chunk i] records_of_short)
  qed
qed

lemma windows_0: "windows chunk 0 = records_of chunk"
  using windows_records_of [of 0 chunk] by simp

text \<open>The value of the \<open>remainder\<close> variable that stands for a given tail.\<close>

lemma new_remainder_tail:
  "new_remainder chunk = (if tail_of chunk = [] then None else Some (tail_of chunk))"
proof -
  have "tail_of chunk = [] \<longleftrightarrow> length chunk mod 6 = 0"
    using length_tail_of [of chunk] by (metis length_0_conv)
  then show ?thesis
    by (simp add: new_remainder_def slice_from_def tail_of_def mult.commute)
qed

lemma prepend_tail:
  "prepend (if t = [] then None else Some t) chunk = t @ chunk"
  by (simp add: prepend_def)

section \<open>The reader over a chunk sequence; the loops as reader plus body\<close>

lemma reader_data_step:
  assumes "pending rd = (if tail_of log = [] then None else Some (tail_of log))"
    and "emitted rd = records_of log"
  shows "pending (reader_data rd chunk)
           = (if tail_of (log @ chunk) = [] then None else Some (tail_of (log @ chunk)))"
    and "emitted (reader_data rd chunk) = records_of (log @ chunk)"
proof -
  have p: "prepend (pending rd) chunk = tail_of log @ chunk"
    using assms(1) by (simp add: prepend_def)
  show "pending (reader_data rd chunk)
           = (if tail_of (log @ chunk) = [] then None else Some (tail_of (log @ chunk)))"
    by (simp add: reader_data_def Let_def p new_remainder_tail tail_of_append)
  show "emitted (reader_data rd chunk) = records_of (log @ chunk)"
    using assms(2)
    by (simp add: reader_data_def Let_def p windows_0 records_of_append [of log chunk])
qed

lemma reader_fold:
  assumes "pending rd = (if tail_of log = [] then None else Some (tail_of log))"
    and "emitted rd = records_of log"
  shows "pending (fold (\<lambda>c r. reader_data r c) chunks rd)
           = (if tail_of (log @ concat chunks) = [] then None
              else Some (tail_of (log @ concat chunks)))
       \<and> emitted (fold (\<lambda>c r. reader_data r c) chunks rd) = records_of (log @ concat chunks)"
  using assms
proof (induction chunks arbitrary: rd log)
  case Nil
  then show ?case by simp
next
  case (Cons c cs)
  from reader_data_step [OF Cons.prems]
  have "pending (reader_data rd c)
           = (if tail_of (log @ c) = [] then None else Some (tail_of (log @ c)))"
    and "emitted (reader_data rd c) = records_of (log @ c)" by simp_all
  from Cons.IH [OF this] show ?case by simp
qed

lemma reader_run:
  "emitted (fold (\<lambda>c r. reader_data r c) chunks reader_init) = records_of (concat chunks)"
  "pending (fold (\<lambda>c r. reader_data r c) chunks reader_init)
     = (if tail_of (concat chunks) = [] then None else Some (tail_of (concat chunks)))"
  using reader_fold [of reader_init "[]" chunks]
  by (simp_all add: reader_init_def tail_of_def)

text \<open>Each loop is the reader's window sequence with the loop body applied to each window.\<close>

lemma elem_window:
  "i + 6 \<le> length chunk \<Longrightarrow> j < 6 \<Longrightarrow> elem (subarray chunk i (i + 6)) j = elem chunk (i + j)"
  by (simp add: elem_def subarray_def)

lemma line24_window:
  "i + 6 \<le> length chunk \<Longrightarrow> line24 (subarray chunk i (i + 6)) 0 = line24 chunk i"
  by (simp add: line24_def elem_def subarray_def)

lemma lineIps_window:
  "i + 6 \<le> length chunk \<Longrightarrow> lineIps (subarray chunk i (i + 6)) 0 = lineIps chunk i"
  by (simp add: lineIps_def elem_def subarray_def)

lemma key_window:
  "k \<le> 6 \<Longrightarrow> subarray (subarray chunk i (i + 6)) 0 k = subarray chunk i (i + k)"
  by (simp add: subarray_def min_def)

lemma loop24_windows:
  "i mod 6 = 0 \<Longrightarrow> loop24 chunk i st = fold body24 (windows chunk i) st"
proof (induction chunk i st rule: loop24.induct)
  case (1 chunk i st)
  show ?case
  proof (cases "i < (length chunk div 6) * 6")
    case True
    with "1.prems" have le: "i + 6 \<le> length chunk" by (simp add: aligned_step)
    have nxt: "(i + 6) mod 6 = 0" using "1.prems" by simp
    let ?key = "to_hex (subarray chunk i (i + 3))"
    have b: "body24 (subarray chunk i (i + 6)) st
        = (if ?key \<in> seen st then st
           else st\<lparr>seen := insert ?key (seen st), out := out st @ [line24 chunk i]\<rparr>)"
      using le by (simp add: body24_def key_window line24_window)
    show ?thesis
    proof (cases "?key \<in> seen st")
      case True
      note k = this
      from "1.IH"(1) [OF \<open>i < (length chunk div 6) * 6\<close> refl k nxt] k b
        \<open>i < (length chunk div 6) * 6\<close>
      show ?thesis
        by (simp add: loop24.simps [of chunk i] windows.simps [of chunk i])
    next
      case False
      note k = this
      from "1.IH"(2) [OF \<open>i < (length chunk div 6) * 6\<close> refl k nxt] k b
        \<open>i < (length chunk div 6) * 6\<close>
      show ?thesis
        by (simp add: loop24.simps [of chunk i] windows.simps [of chunk i])
    qed
  next
    case False
    then show ?thesis
      by (simp add: loop24.simps [of chunk i] windows.simps [of chunk i])
  qed
qed

lemma loopIps_windows:
  "i mod 6 = 0 \<Longrightarrow> loopIps chunk i st = fold bodyIps (windows chunk i) st"
proof (induction chunk i st rule: loopIps.induct)
  case (1 chunk i st)
  show ?case
  proof (cases "i < (length chunk div 6) * 6")
    case True
    with "1.prems" have le: "i + 6 \<le> length chunk" by (simp add: aligned_step)
    have nxt: "(i + 6) mod 6 = 0" using "1.prems" by simp
    let ?key = "to_hex (subarray chunk i (i + 4))"
    have b: "bodyIps (subarray chunk i (i + 6)) st
        = (if ?key \<in> seen st then st
           else st\<lparr>seen := insert ?key (seen st), out := out st @ [lineIps chunk i]\<rparr>)"
      using le by (simp add: bodyIps_def key_window lineIps_window)
    show ?thesis
    proof (cases "?key \<in> seen st")
      case True
      note k = this
      from "1.IH"(1) [OF \<open>i < (length chunk div 6) * 6\<close> refl k nxt] k b
        \<open>i < (length chunk div 6) * 6\<close>
      show ?thesis
        by (simp add: loopIps.simps [of chunk i] windows.simps [of chunk i])
    next
      case False
      note k = this
      from "1.IH"(2) [OF \<open>i < (length chunk div 6) * 6\<close> refl k nxt] k b
        \<open>i < (length chunk div 6) * 6\<close>
      show ?thesis
        by (simp add: loopIps.simps [of chunk i] windows.simps [of chunk i])
    qed
  next
    case False
    then show ?thesis
      by (simp add: loopIps.simps [of chunk i] windows.simps [of chunk i])
  qed
qed

section \<open>Runs of the handlers\<close>

subsection \<open>A run of \<open>'data'\<close> events is one pass of the body over the log's records\<close>

lemma body24_remainder:
  "body24 r (s\<lparr>remainder := x\<rparr>) = (body24 r s)\<lparr>remainder := x\<rparr>"
  by (simp add: body24_def Let_def)

lemma bodyIps_remainder:
  "bodyIps r (s\<lparr>remainder := x\<rparr>) = (bodyIps r s)\<lparr>remainder := x\<rparr>"
  by (simp add: bodyIps_def Let_def)

lemma fold_body_remainder:
  assumes "\<And>r s x. body r (s\<lparr>remainder := x\<rparr>) = (body r s)\<lparr>remainder := x\<rparr>"
  shows "fold body rs (s\<lparr>remainder := x\<rparr>) = (fold body rs s)\<lparr>remainder := x\<rparr>"
  by (induction rs arbitrary: s) (simp_all add: assms)

lemma data_fold_generic:
  assumes loop: "\<And>chunk st. loop chunk 0 st = fold body (records_of chunk) st"
    and comm: "\<And>r s x. body r (s\<lparr>remainder := x\<rparr>) = (body r s)\<lparr>remainder := x\<rparr>"
    and on_data: "\<And>st c. on_data st c =
        (loop (prepend (remainder st) c) 0 st)\<lparr>remainder := new_remainder (prepend (remainder st) c)\<rparr>"
    and inv: "st = (fold body (records_of log) fresh)
        \<lparr>remainder := (if tail_of log = [] then None else Some (tail_of log))\<rparr>"
  shows "fold (\<lambda>c s. on_data s c) chunks st
      = (fold body (records_of (log @ concat chunks)) fresh)
        \<lparr>remainder := (if tail_of (log @ concat chunks) = [] then None
                       else Some (tail_of (log @ concat chunks)))\<rparr>"
  using inv
proof (induction chunks arbitrary: st log)
  case Nil
  then show ?case by simp
next
  case (Cons c cs)
  have p: "prepend (remainder st) c = tail_of log @ c"
    using Cons.prems by (simp add: prepend_def)
  have "on_data st c
      = (fold body (records_of (tail_of log @ c)) st)
        \<lparr>remainder := new_remainder (tail_of log @ c)\<rparr>"
    by (simp add: on_data p loop)
  also have "fold body (records_of (tail_of log @ c)) st
      = (fold body (records_of log @ records_of (tail_of log @ c)) fresh)
        \<lparr>remainder := (if tail_of log = [] then None else Some (tail_of log))\<rparr>"
    by (subst Cons.prems) (simp only: fold_body_remainder [of body, OF comm] fold_append o_apply)
  finally have "on_data st c
      = (fold body (records_of (log @ c)) fresh)
        \<lparr>remainder := (if tail_of (log @ c) = [] then None else Some (tail_of (log @ c)))\<rparr>"
    by (simp add: records_of_append [of log c] new_remainder_tail tail_of_append)
  from Cons.IH [OF this] show ?case by simp
qed

lemma fresh_inv:
  "fresh = (fold body (records_of []) fresh)
      \<lparr>remainder := (if tail_of [] = [] then None else Some (tail_of []))\<rparr>"
  by (simp add: fresh_def tail_of_def)

lemma data24_fold:
  "fold (\<lambda>c s. on_data24 s c) chunks fresh
     = (fold body24 (records_of (concat chunks)) fresh)
       \<lparr>remainder := (if tail_of (concat chunks) = [] then None
                      else Some (tail_of (concat chunks)))\<rparr>"
proof -
  have loop: "\<And>chunk st. loop24 chunk 0 st = fold body24 (records_of chunk) st"
    by (simp add: loop24_windows windows_0)
  have od: "\<And>st c. on_data24 st c =
        (loop24 (prepend (remainder st) c) 0 st)
          \<lparr>remainder := new_remainder (prepend (remainder st) c)\<rparr>"
    by (simp add: on_data24_def Let_def)
  from data_fold_generic [of loop24 body24 on_data24 fresh "[]" chunks,
      OF loop body24_remainder od fresh_inv]
  show ?thesis by simp
qed

lemma dataIps_fold:
  "fold (\<lambda>c s. on_dataIps s c) chunks fresh
     = (fold bodyIps (records_of (concat chunks)) fresh)
       \<lparr>remainder := (if tail_of (concat chunks) = [] then None
                      else Some (tail_of (concat chunks)))\<rparr>"
proof -
  have loop: "\<And>chunk st. loopIps chunk 0 st = fold bodyIps (records_of chunk) st"
    by (simp add: loopIps_windows windows_0)
  have od: "\<And>st c. on_dataIps st c =
        (loopIps (prepend (remainder st) c) 0 st)
          \<lparr>remainder := new_remainder (prepend (remainder st) c)\<rparr>"
    by (simp add: on_dataIps_def Let_def)
  from data_fold_generic [of loopIps bodyIps on_dataIps fresh "[]" chunks,
      OF loop bodyIps_remainder od fresh_inv]
  show ?thesis by simp
qed

subsection \<open>Delivering a fault-free stream\<close>

lemma deliver_data:
  assumes "uncaught s = None"
    and "\<And>s c. uncaught (h s (Data c)) = uncaught s"
  shows "deliver h s (map Data chunks @ evs)
      = deliver h (fold (\<lambda>c s. h s (Data c)) chunks s) evs"
  using assms(1)
proof (induction chunks arbitrary: s)
  case Nil
  then show ?case by simp
next
  case (Cons c cs)
  then show ?case by (simp add: assms(2))
qed

lemma fold_handle24_data:
  "fold (\<lambda>c s. handle24 s (Data c)) chunks s
     = s\<lparr>vars := fold (\<lambda>c b. on_data24 b c) chunks (vars s)\<rparr>"
  by (induction chunks arbitrary: s) simp_all

lemma fold_handleIps_data:
  "fold (\<lambda>c s. handleIps s (Data c)) chunks s
     = s\<lparr>vars := fold (\<lambda>c b. on_dataIps b c) chunks (vars s)\<rparr>"
  by (induction chunks arbitrary: s) simp_all

lemma deliver24_data:
  "deliver handle24 start (map Data chunks @ evs)
     = deliver handle24 (start\<lparr>vars := fold (\<lambda>c b. on_data24 b c) chunks fresh\<rparr>) evs"
proof -
  have "deliver handle24 start (map Data chunks @ evs)
      = deliver handle24 (fold (\<lambda>c s. handle24 s (Data c)) chunks start) evs"
    by (rule deliver_data) (simp_all add: start_def)
  also have "fold (\<lambda>c s. handle24 s (Data c)) chunks start
      = start\<lparr>vars := fold (\<lambda>c b. on_data24 b c) chunks (vars start)\<rparr>"
    by (rule fold_handle24_data)
  also have "vars start = fresh" by (simp add: start_def)
  finally show ?thesis .
qed

lemma deliverIps_data:
  "deliver handleIps start (map Data chunks @ evs)
     = deliver handleIps (start\<lparr>vars := fold (\<lambda>c b. on_dataIps b c) chunks fresh\<rparr>) evs"
proof -
  have "deliver handleIps start (map Data chunks @ evs)
      = deliver handleIps (fold (\<lambda>c s. handleIps s (Data c)) chunks start) evs"
    by (rule deliver_data) (simp_all add: start_def)
  also have "fold (\<lambda>c s. handleIps s (Data c)) chunks start
      = start\<lparr>vars := fold (\<lambda>c b. on_dataIps b c) chunks (vars start)\<rparr>"
    by (rule fold_handleIps_data)
  also have "vars start = fresh" by (simp add: start_def)
  finally show ?thesis .
qed

lemma run24_stream:
  "deliver handle24 start (map Data chunks @ [End])
     = \<lparr>vars = fold (\<lambda>c b. on_data24 b c) chunks fresh, promise = Fulfilled,
        out_ended = True, uncaught = None\<rparr>"
  by (simp add: deliver24_data) (simp add: start_def settle_def)

lemma runIps_stream:
  "deliver handleIps start (map Data chunks @ [End])
     = \<lparr>vars = fold (\<lambda>c b. on_dataIps b c) chunks fresh, promise = Fulfilled,
        out_ended = True, uncaught = None\<rparr>"
  by (simp add: deliverIps_data) (simp add: start_def settle_def)

section \<open>First occurrences and deduplication\<close>

subsection \<open>First occurrences\<close>

lemma set_first_seen: "set (first_seen S xs) = set xs - S"
  by (induction xs arbitrary: S) auto

lemma distinct_first_seen: "distinct (first_seen S xs)"
  by (induction xs arbitrary: S) (auto simp: set_first_seen)

lemma length_first_seen: "length (first_seen S xs) \<le> length xs"
proof (induction xs arbitrary: S)
  case Nil
  then show ?case by simp
next
  case (Cons x xs)
  from Cons [of S] Cons [of "insert x S"] show ?case by simp
qed

lemma first_seen_map_inj:
  "inj f \<Longrightarrow> first_seen (f ` S) (map f xs) = map f (first_seen S xs)"
proof (induction xs arbitrary: S)
  case Nil
  then show ?case by simp
next
  case (Cons x xs)
  from Cons.prems have "f x \<in> f ` S \<longleftrightarrow> x \<in> S" by (simp add: inj_image_mem_iff)
  moreover have "insert (f x) (f ` S) = f ` insert x S" by simp
  ultimately show ?case using Cons.IH [OF Cons.prems] by (simp del: image_insert)
qed

lemma first_pos_Cons:
  "first_pos x (y # ys) = (if y = x then 0 else Suc (first_pos x ys))"
  by (simp add: first_pos_def)

lemma first_pos_less_length: "x \<in> set xs \<Longrightarrow> first_pos x xs < length xs"
  by (induction xs) (auto simp: first_pos_Cons)

lemma first_pos_map_inj:
  "inj_on f (insert x (set xs)) \<Longrightarrow> first_pos (f x) (map f xs) = first_pos x xs"
proof (induction xs)
  case Nil
  then show ?case by (simp add: first_pos_def)
next
  case (Cons y ys)
  from Cons.prems have "inj_on f (insert x (set ys))"
    by (rule inj_on_subset) auto
  with Cons.IH have ih: "first_pos (f x) (map f ys) = first_pos x ys" by simp
  have "f y = f x \<longleftrightarrow> y = x"
    using inj_onD [OF Cons.prems, of y x] by auto
  with ih show ?case by (simp add: first_pos_Cons)
qed

lemma first_seen_order:
  assumes "k1 \<in> set ks" and "k2 \<in> set ks" and "k1 \<notin> S" and "k2 \<notin> S"
    and "first_pos k1 ks < first_pos k2 ks"
  shows "first_pos k1 (first_seen S ks) < first_pos k2 (first_seen S ks)"
  using assms
proof (induction ks arbitrary: S)
  case Nil
  then show ?case by simp
next
  case (Cons x xs)
  show ?case
  proof (cases "x = k1")
    case True
    with Cons.prems have ne: "k2 \<noteq> k1" by (auto simp: first_pos_Cons split: if_splits)
    with True Cons.prems have "k2 \<in> set xs" by auto
    with Cons.prems True ne have "k2 \<in> set (first_seen (insert x S) xs)"
      by (simp add: set_first_seen)
    with True Cons.prems ne show ?thesis by (simp add: first_pos_Cons)
  next
    case False
    note x1 = this
    from Cons.prems have x2: "x \<noteq> k2" by (auto simp: first_pos_Cons split: if_splits)
    from x1 x2 Cons.prems have mem: "k1 \<in> set xs" "k2 \<in> set xs" by auto
    from x1 x2 Cons.prems have lt: "first_pos k1 xs < first_pos k2 xs"
      by (simp add: first_pos_Cons)
    show ?thesis
    proof (cases "x \<in> S")
      case True
      with Cons.IH [OF mem Cons.prems(3,4) lt] show ?thesis by simp
    next
      case False
      from x1 x2 Cons.prems have "k1 \<notin> insert x S" "k2 \<notin> insert x S" by auto
      from Cons.IH [OF mem this lt] False x1 x2 show ?thesis
        by (simp add: first_pos_Cons)
    qed
  qed
qed

subsection \<open>The loop body deduplicates on the projected key\<close>

lemma inj_to_hex: "inj to_hex"
  by (rule injI) (rule to_hex_inj)

lemma fold_body_generic:
  assumes body: "\<And>r st. body r st =
        (if to_hex (kf r) \<in> seen st then st
         else st\<lparr>seen := insert (to_hex (kf r)) (seen st), out := out st @ [lf r]\<rparr>)"
    and "seen st = to_hex ` K"
    and "\<forall>r\<in>set rs. lf r = g (kf r)"
  shows "out (fold body rs st) = out st @ map g (first_seen K (map kf rs))
       \<and> seen (fold body rs st) = to_hex ` (K \<union> kf ` set rs)"
  using assms(2,3)
proof (induction rs arbitrary: st K)
  case Nil
  then show ?case by simp
next
  case (Cons r rs)
  have mem: "to_hex (kf r) \<in> seen st \<longleftrightarrow> kf r \<in> K"
    using Cons.prems(1) inj_to_hex by (simp add: inj_image_mem_iff)
  from Cons.prems(2) have rest: "\<forall>r\<in>set rs. lf r = g (kf r)" and here: "lf r = g (kf r)"
    by simp_all
  show ?case
  proof (cases "kf r \<in> K")
    case True
    then have "body r st = st" using mem by (simp add: body)
    moreover have "K \<union> kf ` set (r # rs) = K \<union> kf ` set rs" using True by auto
    ultimately show ?thesis using Cons.IH [OF Cons.prems(1) rest] True by simp
  next
    case False
    let ?st = "st\<lparr>seen := insert (to_hex (kf r)) (seen st), out := out st @ [lf r]\<rparr>"
    have b: "body r st = ?st" using False mem by (simp add: body)
    have s: "seen ?st = to_hex ` insert (kf r) K" using Cons.prems(1) by simp
    have "K \<union> kf ` set (r # rs) = insert (kf r) K \<union> kf ` set rs" by auto
    with Cons.IH [OF s rest] b False here show ?thesis by simp
  qed
qed

lemma length_record: "r \<in> set (records_of xs) \<Longrightarrow> length r = 6"
  by (induction xs rule: records_of.induct) auto

lemma line24_key3: "3 \<le> length r \<Longrightarrow> line24 r 0 = line24 (key3 r) 0"
  by (cases r) (auto simp: line24_def elem_def key3_def)

lemma lineIps_key4: "4 \<le> length r \<Longrightarrow> lineIps r 0 = lineIps (key4 r) 0"
  by (cases r) (auto simp: lineIps_def elem_def key4_def)

subsection \<open>Lines are injective in the key\<close>

lemma dec_unat_inj: "dec (unat (a::byte)) = dec (unat b) \<Longrightarrow> a = b"
  by (drule dec_inj) (simp add: word_unat_eq_iff)

lemma line24_triple:
  "line24 [a, b, c] 0
     = dec (unat a) @ CHR ''.'' # dec (unat b) @ CHR ''.'' # dec (unat c) @ CHR ''.''
         # ''0/24'' @ [CHR 0x0A]"
  by (simp add: line24_def elem_def)

lemma lineIps_quad:
  "lineIps [a, b, c, d] 0
     = dec (unat a) @ CHR ''.'' # dec (unat b) @ CHR ''.'' # dec (unat c) @ CHR ''.''
         # dec (unat d) @ [CHR 0x0A]"
  by (simp add: lineIps_def elem_def)

lemma line24_inj:
  assumes "length k = 3" and "length k' = 3" and eq: "line24 k 0 = line24 k' 0"
  shows "k = k'"
proof -
  from assms(1) obtain a b c where k: "k = [a, b, c]"
    by (auto simp: numeral_3_eq_3 length_Suc_conv)
  from assms(2) obtain a' b' c' where k': "k' = [a', b', c']"
    by (auto simp: numeral_3_eq_3 length_Suc_conv)
  from eq have e1: "dec (unat a) @ CHR ''.'' # dec (unat b) @ CHR ''.'' # dec (unat c) @ CHR ''.''
         # ''0/24'' @ [CHR 0x0A]
      = dec (unat a') @ CHR ''.'' # dec (unat b') @ CHR ''.'' # dec (unat c') @ CHR ''.''
         # ''0/24'' @ [CHR 0x0A]"
    by (simp only: k k' line24_triple)
  from split_at_dot [OF dec_no_dot dec_no_dot e1]
  have a: "dec (unat a) = dec (unat a')"
    and e2: "dec (unat b) @ CHR ''.'' # dec (unat c) @ CHR ''.'' # ''0/24'' @ [CHR 0x0A]
      = dec (unat b') @ CHR ''.'' # dec (unat c') @ CHR ''.'' # ''0/24'' @ [CHR 0x0A]"
    by simp_all
  from split_at_dot [OF dec_no_dot dec_no_dot e2]
  have b: "dec (unat b) = dec (unat b')"
    and e3: "dec (unat c) @ CHR ''.'' # ''0/24'' @ [CHR 0x0A]
      = dec (unat c') @ CHR ''.'' # ''0/24'' @ [CHR 0x0A]"
    by simp_all
  from split_at_dot [OF dec_no_dot dec_no_dot e3]
  have c: "dec (unat c) = dec (unat c')" by simp
  from a b c show ?thesis by (simp add: k k' dec_unat_inj)
qed

lemma lineIps_inj:
  assumes "length k = 4" and "length k' = 4" and eq: "lineIps k 0 = lineIps k' 0"
  shows "k = k'"
proof -
  from assms(1) obtain a b c d where k: "k = [a, b, c, d]"
    by (auto simp: numeral_eq_Suc length_Suc_conv)
  from assms(2) obtain a' b' c' d' where k': "k' = [a', b', c', d']"
    by (auto simp: numeral_eq_Suc length_Suc_conv)
  from eq have e1: "dec (unat a) @ CHR ''.'' # dec (unat b) @ CHR ''.'' # dec (unat c) @ CHR ''.''
         # dec (unat d) @ [CHR 0x0A]
      = dec (unat a') @ CHR ''.'' # dec (unat b') @ CHR ''.'' # dec (unat c') @ CHR ''.''
         # dec (unat d') @ [CHR 0x0A]"
    by (simp only: k k' lineIps_quad)
  from split_at_dot [OF dec_no_dot dec_no_dot e1]
  have a: "dec (unat a) = dec (unat a')"
    and e2: "dec (unat b) @ CHR ''.'' # dec (unat c) @ CHR ''.'' # dec (unat d) @ [CHR 0x0A]
      = dec (unat b') @ CHR ''.'' # dec (unat c') @ CHR ''.'' # dec (unat d') @ [CHR 0x0A]"
    by simp_all
  from split_at_dot [OF dec_no_dot dec_no_dot e2]
  have b: "dec (unat b) = dec (unat b')"
    and e3: "dec (unat c) @ CHR ''.'' # dec (unat d) @ [CHR 0x0A]
      = dec (unat c') @ CHR ''.'' # dec (unat d') @ [CHR 0x0A]"
    by simp_all
  from split_at_dot [OF dec_no_dot dec_no_dot e3]
  have c: "dec (unat c) = dec (unat c')" and d: "dec (unat d) = dec (unat d')" by simp_all
  from a b c d show ?thesis by (simp add: k k' dec_unat_inj)
qed

subsection \<open>What a builder writes, as a function of the log\<close>

lemma out_body24:
  "out (fold body24 (records_of log) fresh) = map (\<lambda>k. line24 k 0) (first_seen {} (keys3 log))"
proof -
  have body: "\<And>r st. body24 r st =
        (if to_hex (key3 r) \<in> seen st then st
         else st\<lparr>seen := insert (to_hex (key3 r)) (seen st), out := out st @ [line24 r 0]\<rparr>)"
    by (simp add: body24_def Let_def subarray_def key3_def)
  have lines: "\<forall>r\<in>set (records_of log). line24 r 0 = line24 (key3 r) 0"
    by (auto dest!: length_record intro: line24_key3)
  have "seen fresh = to_hex ` {}" by (simp add: fresh_def)
  from fold_body_generic [of body24 key3 "\<lambda>r. line24 r 0" fresh "{}" "records_of log"
      "\<lambda>k. line24 k 0", OF body this lines]
  show ?thesis by (simp add: fresh_def keys3_def)
qed

lemma out_bodyIps:
  "out (fold bodyIps (records_of log) fresh) = map (\<lambda>k. lineIps k 0) (first_seen {} (keys4 log))"
proof -
  have body: "\<And>r st. bodyIps r st =
        (if to_hex (key4 r) \<in> seen st then st
         else st\<lparr>seen := insert (to_hex (key4 r)) (seen st), out := out st @ [lineIps r 0]\<rparr>)"
    by (simp add: bodyIps_def Let_def subarray_def key4_def)
  have lines: "\<forall>r\<in>set (records_of log). lineIps r 0 = lineIps (key4 r) 0"
    by (auto dest!: length_record intro: lineIps_key4)
  have "seen fresh = to_hex ` {}" by (simp add: fresh_def)
  from fold_body_generic [of bodyIps key4 "\<lambda>r. lineIps r 0" fresh "{}" "records_of log"
      "\<lambda>k. lineIps k 0", OF body this lines]
  show ?thesis by (simp add: fresh_def keys4_def)
qed

lemma out_data24:
  "out (fold (\<lambda>c s. on_data24 s c) chunks fresh)
     = map (\<lambda>k. line24 k 0) (first_seen {} (keys3 (concat chunks)))"
  by (simp add: data24_fold out_body24)

lemma out_dataIps:
  "out (fold (\<lambda>c s. on_dataIps s c) chunks fresh)
     = map (\<lambda>k. lineIps k 0) (first_seen {} (keys4 (concat chunks)))"
  by (simp add: dataIps_fold out_bodyIps)

lemma length_keys3: "k \<in> set (keys3 log) \<Longrightarrow> length k = 3"
  by (auto simp: keys3_def key3_def dest!: length_record)

lemma length_keys4: "k \<in> set (keys4 log) \<Longrightarrow> length k = 4"
  by (auto simp: keys4_def key4_def dest!: length_record)

lemma inj_on_line24: "inj_on (\<lambda>k. line24 k 0) (set (keys3 log))"
  by (rule inj_onI) (auto dest!: length_keys3 intro: line24_inj)

lemma inj_on_lineIps: "inj_on (\<lambda>k. lineIps k 0) (set (keys4 log))"
  by (rule inj_onI) (auto dest!: length_keys4 intro: lineIps_inj)

subsection \<open>The stream model delivers exactly the splittings into non-empty chunks\<close>

lemma concat_chop: "concat (chop sizes bs) = bs"
  by (induction sizes bs rule: chop.induct) simp_all

lemma chop_nonempty: "c \<in> set (chop sizes bs) \<Longrightarrow> c \<noteq> []"
  by (induction sizes bs rule: chop.induct) auto

lemma chop_complete:
  "\<forall>c\<in>set chunks. c \<noteq> [] \<Longrightarrow> chop (map (\<lambda>c. length c - 1) chunks) (concat chunks) = chunks"
proof (induction chunks)
  case Nil
  then show ?case by simp
next
  case (Cons c cs)
  then obtain x xs where c: "c = x # xs" by (cases c) auto
  from Cons have ih: "chop (map (\<lambda>c. length c - 1) cs) (concat cs) = cs" by simp
  show ?case using ih by (simp add: c)
qed

subsection \<open>A builder on an existing log\<close>

lemma build24_log:
  "fs file = Some log \<Longrightarrow>
   buildInclude24s fs file sizes
     = \<lparr>vars = fold (\<lambda>c b. on_data24 b c) (chop sizes log) fresh, promise = Fulfilled,
        out_ended = True, uncaught = None\<rparr>"
  by (simp add: buildInclude24s_def buildInclude24s_on_def statSync_def createReadStream_def
      run24_stream)

lemma buildIps_log:
  "fs file = Some log \<Longrightarrow>
   buildIncludeIps fs file sizes
     = \<lparr>vars = fold (\<lambda>c b. on_dataIps b c) (chop sizes log) fresh, promise = Fulfilled,
        out_ended = True, uncaught = None\<rparr>"
  by (simp add: buildIncludeIps_def buildIncludeIps_on_def createReadStream_def runIps_stream)

lemma out_build24:
  "fs file = Some log \<Longrightarrow>
   out (vars (buildInclude24s fs file sizes))
     = map (\<lambda>k. line24 k 0) (first_seen {} (keys3 log))"
  by (simp add: build24_log out_data24 concat_chop)

lemma out_buildIps:
  "fs file = Some log \<Longrightarrow>
   out (vars (buildIncludeIps fs file sizes))
     = map (\<lambda>k. lineIps k 0) (first_seen {} (keys4 log))"
  by (simp add: buildIps_log out_dataIps concat_chop)

lemma records_of_grid:
  "records_of log = map (\<lambda>k. subarray log (6 * k) (6 * k + 6)) [0..<length log div 6]"
proof (induction log rule: records_of.induct)
  case (1 a b c d e f rest)
  have len: "length (a # b # c # d # e # f # rest) div 6 = Suc (length rest div 6)" by simp
  have shift: "\<And>n. drop (6 + n) (a # b # c # d # e # f # rest) = drop n rest"
  proof -
    fix n
    have "drop (6 + n) (a # b # c # d # e # f # rest)
        = drop n (drop 6 (a # b # c # d # e # f # rest))"
      by (simp only: drop_drop add.commute)
    then show "drop (6 + n) (a # b # c # d # e # f # rest) = drop n rest" by simp
  qed
  show ?case
    by (simp only: len map_upt_Suc records_of.simps 1) (simp add: subarray_def shift)
qed (simp_all add: subarray_def)

section \<open>The claims\<close>

lemma fold_body_fresh_remainder:
  assumes "\<And>r s x. body r (s\<lparr>remainder := x\<rparr>) = (body r s)\<lparr>remainder := x\<rparr>"
  shows "(fold body rs fresh)\<lparr>remainder := None\<rparr> = fold body rs fresh"
proof -
  have "(fold body rs fresh)\<lparr>remainder := None\<rparr> = fold body rs (fresh\<lparr>remainder := None\<rparr>)"
    by (simp only: fold_body_remainder [of body, OF assms])
  then show ?thesis by (simp add: fresh_def)
qed

lemma loop24_record: "length r = 6 \<Longrightarrow> loop24 r 0 st = body24 r st"
proof -
  assume "length r = 6"
  then have "records_of r = [r]" using records_of_six [of r "[]"] by simp
  then show ?thesis by (simp add: loop24_windows windows_0)
qed

lemma loopIps_record: "length r = 6 \<Longrightarrow> loopIps r 0 st = bodyIps r st"
proof -
  assume "length r = 6"
  then have "records_of r = [r]" using records_of_six [of r "[]"] by simp
  then show ?thesis by (simp add: loopIps_windows windows_0)
qed

lemma to_hex_eq_iff: "to_hex xs = to_hex ys \<longleftrightarrow> xs = ys"
  by (auto dest: to_hex_inj)

text \<open>
  C1. For a log of exactly \<open>N \<times> 6\<close> bytes, split in any way into non-empty chunks, the
  state either \<open>'data'\<close> handler reaches is the state of one pass of its loop body over
  the \<open>N\<close> windows \<open>[6k, 6k + 6)\<close> of the log, in order: exactly \<open>N\<close> records, none
  overlapping another or off the 6-byte grid, and nothing left in \<open>remainder\<close>. It is
  the state the handler reaches on the whole log as one chunk. On one record the loop is
  its body, and on any chunk the loop is its body over the windows of the chunk, which is
  what the reader emits: for the reader, too, the records of the chunked log are those of
  the whole log, \<open>N\<close> of them, on the grid.
\<close>

theorem C1_chunked_reader_framing:
  assumes "length (concat chunks) = N * 6" and "\<forall>c\<in>set chunks. c \<noteq> []"
  shows "fold (\<lambda>c s. on_data24 s c) chunks fresh
           = fold body24 (map (\<lambda>k. subarray (concat chunks) (6 * k) (6 * k + 6)) [0..<N]) fresh
       \<and> fold (\<lambda>c s. on_dataIps s c) chunks fresh
           = fold bodyIps (map (\<lambda>k. subarray (concat chunks) (6 * k) (6 * k + 6)) [0..<N]) fresh
       \<and> fold (\<lambda>c s. on_data24 s c) chunks fresh = on_data24 fresh (concat chunks)
       \<and> fold (\<lambda>c s. on_dataIps s c) chunks fresh = on_dataIps fresh (concat chunks)
       \<and> remainder (fold (\<lambda>c s. on_data24 s c) chunks fresh) = None
       \<and> remainder (fold (\<lambda>c s. on_dataIps s c) chunks fresh) = None
       \<and> (\<forall>r st. length r = 6 \<longrightarrow> loop24 r 0 st = body24 r st \<and> loopIps r 0 st = bodyIps r st)
       \<and> (\<forall>chunk st. loop24 chunk 0 st = fold body24 (windows chunk 0) st
                    \<and> loopIps chunk 0 st = fold bodyIps (windows chunk 0) st)
       \<and> emitted (fold (\<lambda>c r. reader_data r c) chunks reader_init)
           = emitted (reader_data reader_init (concat chunks))
       \<and> length (emitted (fold (\<lambda>c r. reader_data r c) chunks reader_init)) = N
       \<and> emitted (fold (\<lambda>c r. reader_data r c) chunks reader_init)
           = map (\<lambda>k. subarray (concat chunks) (6 * k) (6 * k + 6)) [0..<N]"
proof -
  let ?log = "concat chunks"
  let ?grid = "map (\<lambda>k. subarray ?log (6 * k) (6 * k + 6)) [0..<N]"
  have e: "emitted (fold (\<lambda>c r. reader_data r c) chunks reader_init) = records_of ?log"
    by (rule reader_run)
  have one: "emitted (reader_data reader_init ?log) = records_of ?log"
    using reader_run(1) [of "[?log]"] by simp
  have n: "length ?log div 6 = N" using assms(1) by simp
  have grid: "records_of ?log = ?grid"
    using records_of_grid [of ?log] n by simp
  have t: "tail_of ?log = []"
    using length_tail_of [of ?log] assms(1) by simp
  have c24: "fold (\<lambda>c s. on_data24 s c) chunks fresh = fold body24 ?grid fresh"
  proof -
    have "fold (\<lambda>c s. on_data24 s c) chunks fresh = (fold body24 ?grid fresh)\<lparr>remainder := None\<rparr>"
      by (simp add: data24_fold [of chunks] t grid)
    also have "\<dots> = fold body24 ?grid fresh"
      by (rule fold_body_fresh_remainder [of body24, OF body24_remainder])
    finally show ?thesis .
  qed
  have cIps: "fold (\<lambda>c s. on_dataIps s c) chunks fresh = fold bodyIps ?grid fresh"
  proof -
    have "fold (\<lambda>c s. on_dataIps s c) chunks fresh = (fold bodyIps ?grid fresh)\<lparr>remainder := None\<rparr>"
      by (simp add: dataIps_fold [of chunks] t grid)
    also have "\<dots> = fold bodyIps ?grid fresh"
      by (rule fold_body_fresh_remainder [of bodyIps, OF bodyIps_remainder])
    finally show ?thesis .
  qed
  have b24: "fold (\<lambda>c s. on_data24 s c) chunks fresh = on_data24 fresh ?log"
    using data24_fold [of chunks] data24_fold [of "[?log]"] by simp
  have bIps: "fold (\<lambda>c s. on_dataIps s c) chunks fresh = on_dataIps fresh ?log"
    using dataIps_fold [of chunks] dataIps_fold [of "[?log]"] by simp
  have r24: "remainder (fold (\<lambda>c s. on_data24 s c) chunks fresh) = None"
    by (simp add: data24_fold [of chunks] t)
  have rIps: "remainder (fold (\<lambda>c s. on_dataIps s c) chunks fresh) = None"
    by (simp add: dataIps_fold [of chunks] t)
  have rec: "\<forall>r st. length r = 6 \<longrightarrow> loop24 r 0 st = body24 r st \<and> loopIps r 0 st = bodyIps r st"
    by (simp add: loop24_record loopIps_record)
  have win: "\<forall>chunk st. loop24 chunk 0 st = fold body24 (windows chunk 0) st
                    \<and> loopIps chunk 0 st = fold bodyIps (windows chunk 0) st"
    by (simp add: loop24_windows loopIps_windows)
  have len: "length (emitted (fold (\<lambda>c r. reader_data r c) chunks reader_init)) = N"
    by (simp only: e length_records_of n)
  have eg: "emitted (fold (\<lambda>c r. reader_data r c) chunks reader_init) = ?grid"
    by (simp only: e grid)
  have eo: "emitted (fold (\<lambda>c r. reader_data r c) chunks reader_init)
      = emitted (reader_data reader_init ?log)"
    by (simp only: e one)
  from c24 cIps b24 bIps r24 rIps rec win eo len eg show ?thesis by (intro conjI)
qed

theorem C1_chunked_reader_framing_witness:
  "out (fold (\<lambda>c s. on_dataIps s c)
       [[1, 2, 3, 4], [5], [6, 7, 8, 9, 10, 11, 12 :: byte]] fresh)
     = [''1.2.3.4'' @ [CHR 0x0A], ''7.8.9.10'' @ [CHR 0x0A]]
 \<and> emitted (fold (\<lambda>c r. reader_data r c)
       [[1, 2, 3, 4], [5], [6, 7, 8, 9, 10, 11, 12 :: byte]] reader_init)
     = [[1, 2, 3, 4, 5, 6], [7, 8, 9, 10, 11, 12]]"
proof -
  let ?cs = "[[1, 2, 3, 4], [5], [6, 7, 8, 9, 10, 11, 12 :: byte]]"
  have h1: "length (concat ?cs) = 2 * 6" by simp
  have h2: "\<forall>c\<in>set ?cs. c \<noteq> []" by simp
  have g: "map (\<lambda>k. subarray (concat ?cs) (6 * k) (6 * k + 6)) [0..<2]
      = [[1, 2, 3, 4, 5, 6], [7, 8, 9, 10, 11, 12]]"
    by (simp add: subarray_def upt_rec)
  from C1_chunked_reader_framing [OF h1 h2]
  have a: "fold (\<lambda>c s. on_dataIps s c) ?cs fresh
      = fold bodyIps (map (\<lambda>k. subarray (concat ?cs) (6 * k) (6 * k + 6)) [0..<2]) fresh"
    and b: "emitted (fold (\<lambda>c r. reader_data r c) ?cs reader_init)
      = map (\<lambda>k. subarray (concat ?cs) (6 * k) (6 * k + 6)) [0..<2]"
    by blast+
  have "out (fold bodyIps [[1, 2, 3, 4, 5, 6], [7, 8, 9, 10, 11, 12 :: byte]] fresh)
      = [''1.2.3.4'' @ [CHR 0x0A], ''7.8.9.10'' @ [CHR 0x0A]]"
    by (simp add: bodyIps_def lineIps_def elem_def fresh_def subarray_def to_hex_eq_iff
        dec.simps digit_char_def Let_def)
  with a b g show ?thesis by simp
qed

text \<open>
  C2. For every result log, the list a builder writes (subnet mode and host mode) has at
  most as many lines as the log has complete 6-byte records, and no two of its lines belong
  to the same projected key: the lines are the images of pairwise distinct keys, and are
  themselves pairwise distinct.
\<close>

theorem C2_lines_bounded_and_distinct:
  assumes "fs file = Some log"
  shows "length (out (vars (buildInclude24s fs file sizes))) \<le> length log div 6
       \<and> out (vars (buildInclude24s fs file sizes))
           = map (\<lambda>k. line24 k 0) (first_seen {} (keys3 log))
       \<and> distinct (first_seen {} (keys3 log))
       \<and> distinct (out (vars (buildInclude24s fs file sizes)))
       \<and> length (out (vars (buildIncludeIps fs file sizes))) \<le> length log div 6
       \<and> out (vars (buildIncludeIps fs file sizes))
           = map (\<lambda>k. lineIps k 0) (first_seen {} (keys4 log))
       \<and> distinct (first_seen {} (keys4 log))
       \<and> distinct (out (vars (buildIncludeIps fs file sizes)))"
proof -
  have l3: "length (first_seen {} (keys3 log)) \<le> length log div 6"
    using length_first_seen [of "{}" "keys3 log"] by (simp add: keys3_def length_records_of)
  have l4: "length (first_seen {} (keys4 log)) \<le> length log div 6"
    using length_first_seen [of "{}" "keys4 log"] by (simp add: keys4_def length_records_of)
  have d3: "distinct (map (\<lambda>k. line24 k 0) (first_seen {} (keys3 log)))"
    using inj_on_line24 [of log] by (simp add: distinct_map distinct_first_seen set_first_seen)
  have d4: "distinct (map (\<lambda>k. lineIps k 0) (first_seen {} (keys4 log)))"
    using inj_on_lineIps [of log] by (simp add: distinct_map distinct_first_seen set_first_seen)
  from l3 l4 d3 d4 show ?thesis
    by (simp add: out_build24 [of fs "file" log, OF assms] out_buildIps [of fs "file" log, OF assms]
        distinct_first_seen)
qed

theorem C2_lines_bounded_and_distinct_witness:
  "out (vars (buildInclude24s
      [''ips'' \<mapsto> [10, 0, 0, 1, 99, 221, 10, 0, 0, 2, 99, 221, 10, 1, 0, 1, 99, 221, 7]]
      ''ips'' [3, 0, 8]))
     = map (\<lambda>k. line24 k 0) [[10, 0, 0], [10, 1, 0]]"
proof -
  let ?log = "[10, 0, 0, 1, 99, 221, 10, 0, 0, 2, 99, 221, 10, 1, 0, 1, 99, 221, 7 :: byte]"
  have h: "[''ips'' \<mapsto> ?log] ''ips'' = Some ?log" by simp
  from C2_lines_bounded_and_distinct [of "[''ips'' \<mapsto> ?log]" "''ips''" ?log "[3, 0, 8]", OF h]
  have "out (vars (buildInclude24s [''ips'' \<mapsto> ?log] ''ips'' [3, 0, 8]))
      = map (\<lambda>k. line24 k 0) (first_seen {} (keys3 ?log))"
    by blast
  also have "first_seen {} (keys3 ?log) = [[10, 0, 0], [10, 1, 0]]"
    by (simp add: keys3_def key3_def)
  finally show ?thesis .
qed

text \<open>
  C3. The lines of a built list stand in the order in which their keys first appear in the
  log: whenever the first occurrence of key \<open>k1\<close> among the log's complete records
  precedes that of key \<open>k2\<close>, the line of \<open>k1\<close> precedes the line of \<open>k2\<close> in the
  output (and both lines are there).
\<close>

theorem C3_first_appearance_order:
  assumes "fs file = Some log"
  shows "(\<forall>k1\<in>set (keys3 log). \<forall>k2\<in>set (keys3 log).
            first_pos k1 (keys3 log) < first_pos k2 (keys3 log) \<longrightarrow>
            line24 k1 0 \<in> set (out (vars (buildInclude24s fs file sizes)))
          \<and> line24 k2 0 \<in> set (out (vars (buildInclude24s fs file sizes)))
          \<and> first_pos (line24 k1 0) (out (vars (buildInclude24s fs file sizes)))
              < first_pos (line24 k2 0) (out (vars (buildInclude24s fs file sizes))))
       \<and> (\<forall>k1\<in>set (keys4 log). \<forall>k2\<in>set (keys4 log).
            first_pos k1 (keys4 log) < first_pos k2 (keys4 log) \<longrightarrow>
            lineIps k1 0 \<in> set (out (vars (buildIncludeIps fs file sizes)))
          \<and> lineIps k2 0 \<in> set (out (vars (buildIncludeIps fs file sizes)))
          \<and> first_pos (lineIps k1 0) (out (vars (buildIncludeIps fs file sizes)))
              < first_pos (lineIps k2 0) (out (vars (buildIncludeIps fs file sizes))))"
proof -
  have pos: "first_pos (f k) (map f (first_seen {} ks)) = first_pos k (first_seen {} ks)"
    if "inj_on f (set ks)" and "k \<in> set ks" for f :: "buffer \<Rightarrow> string" and ks k
  proof (rule first_pos_map_inj)
    from that have "insert k (set (first_seen {} ks)) = set ks"
      by (auto simp: set_first_seen)
    with that(1) show "inj_on f (insert k (set (first_seen {} ks)))" by simp
  qed
  have ord: "f k1 \<in> set (map f (first_seen {} ks)) \<and> f k2 \<in> set (map f (first_seen {} ks))
      \<and> first_pos (f k1) (map f (first_seen {} ks)) < first_pos (f k2) (map f (first_seen {} ks))"
    if "inj_on f (set ks)" and "k1 \<in> set ks" and "k2 \<in> set ks"
      and "first_pos k1 ks < first_pos k2 ks"
    for f :: "buffer \<Rightarrow> string" and ks k1 k2
  proof -
    from that(2,3,4) have "first_pos k1 (first_seen {} ks) < first_pos k2 (first_seen {} ks)"
      by (intro first_seen_order) simp_all
    with that show ?thesis by (simp add: pos set_first_seen)
  qed
  show ?thesis
    using ord [OF inj_on_line24 [of log]] ord [OF inj_on_lineIps [of log]]
    by (simp only: out_build24 [of fs "file" log, OF assms]
        out_buildIps [of fs "file" log, OF assms]) blast
qed

theorem C3_first_appearance_order_witness:
  "first_pos (line24 [10, 0, 0] 0)
     (out (vars (buildInclude24s
        [''ips'' \<mapsto> [10, 0, 0, 1, 99, 221, 10, 1, 0, 1, 99, 221, 10, 0, 0, 2, 99, 221]]
        ''ips'' [3, 0, 8])))
   < first_pos (line24 [10, 1, 0] 0)
     (out (vars (buildInclude24s
        [''ips'' \<mapsto> [10, 0, 0, 1, 99, 221, 10, 1, 0, 1, 99, 221, 10, 0, 0, 2, 99, 221]]
        ''ips'' [3, 0, 8])))"
proof -
  let ?log = "[10, 0, 0, 1, 99, 221, 10, 1, 0, 1, 99, 221, 10, 0, 0, 2, 99, 221 :: byte]"
  have h: "[''ips'' \<mapsto> ?log] ''ips'' = Some ?log" by simp
  have ks: "keys3 ?log = [[10, 0, 0], [10, 1, 0], [10, 0, 0]]"
    by (simp add: keys3_def key3_def)
  have m1: "[10, 0, 0] \<in> set (keys3 ?log)" and m2: "[10, 1, 0] \<in> set (keys3 ?log)"
    by (simp_all add: ks)
  have lt: "first_pos [10, 0, 0] (keys3 ?log) < first_pos [10, 1, 0] (keys3 ?log)"
    by (simp add: ks first_pos_def)
  from C3_first_appearance_order [of "[''ips'' \<mapsto> ?log]" "''ips''" ?log "[3, 0, 8]", OF h]
    m1 m2 lt
  show ?thesis by blast
qed

text \<open>
  C4. Building twice in succession from the same unmodified log, in the same mode, leaves
  the same bytes in \<open>includeFile.txt\<close>, whatever chunks the two reads deliver: the second
  run starts from a fresh \<open>seen\<close> set and an empty output, and its output replaces the
  first run's instead of following it.
\<close>

theorem C4_rebuild_is_idempotent:
  assumes "fs file = Some log" and "file \<noteq> ''includeFile.txt''"
  shows "after_build (after_build fs (buildInclude24s fs file sizes1))
           (buildInclude24s (after_build fs (buildInclude24s fs file sizes1)) file sizes2)
         = after_build fs (buildInclude24s fs file sizes1)
       \<and> written (buildInclude24s (after_build fs (buildInclude24s fs file sizes1)) file sizes2)
           = written (buildInclude24s fs file sizes1)
       \<and> after_build (after_build fs (buildIncludeIps fs file sizes1))
           (buildIncludeIps (after_build fs (buildIncludeIps fs file sizes1)) file sizes2)
         = after_build fs (buildIncludeIps fs file sizes1)
       \<and> written (buildIncludeIps (after_build fs (buildIncludeIps fs file sizes1)) file sizes2)
           = written (buildIncludeIps fs file sizes1)"
proof -
  have same: "after_build fs r file = Some log" for r
    using assms by (simp add: after_build_def)
  have w24: "written (buildInclude24s fs' file sizes)
      = utf8 (concat (map (\<lambda>k. line24 k 0) (first_seen {} (keys3 log))))"
    if "fs' file = Some log" for fs' sizes
    using that by (simp add: written_def out_build24 [of fs' "file" log])
  have wIps: "written (buildIncludeIps fs' file sizes)
      = utf8 (concat (map (\<lambda>k. lineIps k 0) (first_seen {} (keys4 log))))"
    if "fs' file = Some log" for fs' sizes
    using that by (simp add: written_def out_buildIps [of fs' "file" log])
  have a: "written (buildInclude24s (after_build fs (buildInclude24s fs file sizes1)) file sizes2)
      = written (buildInclude24s fs file sizes1)"
    using w24 [of "after_build fs (buildInclude24s fs file sizes1)" sizes2] w24 [of fs sizes1]
      same assms(1) by simp
  have b: "written (buildIncludeIps (after_build fs (buildIncludeIps fs file sizes1)) file sizes2)
      = written (buildIncludeIps fs file sizes1)"
    using wIps [of "after_build fs (buildIncludeIps fs file sizes1)" sizes2] wIps [of fs sizes1]
      same assms(1) by simp
  have over: "after_build (after_build fs r1) r2 = after_build fs r1"
    if "written r2 = written r1" for r1 r2
    using that by (simp add: after_build_def)
  show ?thesis
    by (intro conjI a b over)
qed

theorem C4_rebuild_is_idempotent_witness:
  "after_build
     (after_build [''ips'' \<mapsto> [10, 0, 0, 1, 99, 221, 10, 0, 0, 2, 99, 221, 7]]
        (buildInclude24s [''ips'' \<mapsto> [10, 0, 0, 1, 99, 221, 10, 0, 0, 2, 99, 221, 7]] ''ips'' [4]))
     (buildInclude24s
        (after_build [''ips'' \<mapsto> [10, 0, 0, 1, 99, 221, 10, 0, 0, 2, 99, 221, 7]]
           (buildInclude24s [''ips'' \<mapsto> [10, 0, 0, 1, 99, 221, 10, 0, 0, 2, 99, 221, 7]] ''ips'' [4]))
        ''ips'' [0, 1, 2])
   = after_build [''ips'' \<mapsto> [10, 0, 0, 1, 99, 221, 10, 0, 0, 2, 99, 221, 7]]
       (buildInclude24s [''ips'' \<mapsto> [10, 0, 0, 1, 99, 221, 10, 0, 0, 2, 99, 221, 7]] ''ips'' [4])"
proof -
  let ?log = "[10, 0, 0, 1, 99, 221, 10, 0, 0, 2, 99, 221, 7 :: byte]"
  have h1: "[''ips'' \<mapsto> ?log] ''ips'' = Some ?log" by simp
  have h2: "''ips'' \<noteq> ''includeFile.txt''" by simp
  from C4_rebuild_is_idempotent [of "[''ips'' \<mapsto> ?log]" "''ips''" ?log "[4]" "[0, 1, 2]",
      OF h1 h2]
  show ?thesis by blast
qed

lemma six_elems: "length r = 6 \<Longrightarrow> \<exists>a b c d e f. r = [a, b, c, d, e, f]"
  by (auto simp: numeral_eq_Suc length_Suc_conv)

lemma line24_record:
  "length r = 6 \<Longrightarrow>
   line24 r 0 = dec (unat (r ! 0)) @ ''.'' @ dec (unat (r ! 1)) @ ''.'' @ dec (unat (r ! 2))
                  @ ''.0/24'' @ [CHR 0x0A]"
  by (drule six_elems) (auto simp: line24_def elem_def)

lemma lineIps_record:
  "length r = 6 \<Longrightarrow>
   lineIps r 0 = dec (unat (r ! 0)) @ ''.'' @ dec (unat (r ! 1)) @ ''.'' @ dec (unat (r ! 2))
                  @ ''.'' @ dec (unat (r ! 3)) @ [CHR 0x0A]"
  by (drule six_elems) (auto simp: lineIps_def elem_def)

lemma set_out_build24:
  "fs file = Some log \<Longrightarrow>
   set (out (vars (buildInclude24s fs file sizes))) = (\<lambda>r. line24 r 0) ` set (records_of log)"
proof -
  assume h: "fs file = Some log"
  have "(\<lambda>k. line24 k 0) ` set (keys3 log) = (\<lambda>r. line24 r 0) ` set (records_of log)"
    unfolding keys3_def set_map image_image
    by (rule image_cong) (auto dest!: length_record simp: line24_key3 [symmetric])
  then show ?thesis
    by (simp add: out_build24 [of fs "file" log, OF h] set_first_seen)
qed

lemma set_out_buildIps:
  "fs file = Some log \<Longrightarrow>
   set (out (vars (buildIncludeIps fs file sizes))) = (\<lambda>r. lineIps r 0) ` set (records_of log)"
proof -
  assume h: "fs file = Some log"
  have "(\<lambda>k. lineIps k 0) ` set (keys4 log) = (\<lambda>r. lineIps r 0) ` set (records_of log)"
    unfolding keys4_def set_map image_image
    by (rule image_cong) (auto dest!: length_record simp: lineIps_key4 [symmetric])
  then show ?thesis
    by (simp add: out_buildIps [of fs "file" log, OF h] set_first_seen)
qed

lemma dec_192: "dec (unat (192 :: byte)) = ''192''" by code_simp
lemma dec_168: "dec (unat (168 :: byte)) = ''168''" by code_simp
lemma dec_1: "dec (unat (1 :: byte)) = ''1''" by code_simp
lemma dec_17: "dec (unat (17 :: byte)) = ''17''" by code_simp

text \<open>
  C5. For a log holding the single record \<open>{192,168,1,17,99,99}\<close>, the subnet-mode
  builder writes exactly the line \<open>192.168.1.0/24\<close> and the host-mode builder exactly
  \<open>192.168.1.17\<close>. In general a log of one record \<open>{a,b,c,d,e,f}\<close> gives the one line
  \<open>a.b.c.0/24\<close>, respectively \<open>a.b.c.d\<close>, in decimal and ending in a newline; and for
  any log the lines written are exactly those formed in this way from its complete records.
\<close>

theorem C5_projection_lines:
  "out (vars (buildInclude24s [file \<mapsto> [192, 168, 1, 17, 99, 99]] file sizes))
     = [''192.168.1.0/24'' @ [CHR 0x0A]]
 \<and> out (vars (buildIncludeIps [file \<mapsto> [192, 168, 1, 17, 99, 99]] file sizes))
     = [''192.168.1.17'' @ [CHR 0x0A]]
 \<and> out (vars (buildInclude24s [file \<mapsto> [a, b, c, d, e, f]] file sizes))
     = [dec (unat a) @ ''.'' @ dec (unat b) @ ''.'' @ dec (unat c) @ ''.0/24'' @ [CHR 0x0A]]
 \<and> out (vars (buildIncludeIps [file \<mapsto> [a, b, c, d, e, f]] file sizes))
     = [dec (unat a) @ ''.'' @ dec (unat b) @ ''.'' @ dec (unat c) @ ''.'' @ dec (unat d)
          @ [CHR 0x0A]]
 \<and> set (out (vars (buildInclude24s [file \<mapsto> log] file sizes)))
     = (\<lambda>r. dec (unat (r ! 0)) @ ''.'' @ dec (unat (r ! 1)) @ ''.'' @ dec (unat (r ! 2))
              @ ''.0/24'' @ [CHR 0x0A]) ` set (records_of log)
 \<and> set (out (vars (buildIncludeIps [file \<mapsto> log] file sizes)))
     = (\<lambda>r. dec (unat (r ! 0)) @ ''.'' @ dec (unat (r ! 1)) @ ''.'' @ dec (unat (r ! 2))
              @ ''.'' @ dec (unat (r ! 3)) @ [CHR 0x0A]) ` set (records_of log)"
proof -
  have g24: "out (vars (buildInclude24s [file \<mapsto> [a, b, c, d, e, f]] file sizes))
     = [dec (unat a) @ ''.'' @ dec (unat b) @ ''.'' @ dec (unat c) @ ''.0/24'' @ [CHR 0x0A]]"
    for a b c d e f
    by (simp add: out_build24 [of _ "file" "[a, b, c, d, e, f]"] keys3_def key3_def
        line24_def elem_def)
  have gIps: "out (vars (buildIncludeIps [file \<mapsto> [a, b, c, d, e, f]] file sizes))
     = [dec (unat a) @ ''.'' @ dec (unat b) @ ''.'' @ dec (unat c) @ ''.'' @ dec (unat d)
          @ [CHR 0x0A]]"
    for a b c d e f
    by (simp add: out_buildIps [of _ "file" "[a, b, c, d, e, f]"] keys4_def key4_def
        lineIps_def elem_def)
  have s24: "set (out (vars (buildInclude24s [file \<mapsto> log] file sizes)))
     = (\<lambda>r. dec (unat (r ! 0)) @ ''.'' @ dec (unat (r ! 1)) @ ''.'' @ dec (unat (r ! 2))
              @ ''.0/24'' @ [CHR 0x0A]) ` set (records_of log)"
    unfolding set_out_build24 [of "[file \<mapsto> log]" "file" log, simplified]
    by (rule image_cong) (auto dest!: length_record simp: line24_record)
  have sIps: "set (out (vars (buildIncludeIps [file \<mapsto> log] file sizes)))
     = (\<lambda>r. dec (unat (r ! 0)) @ ''.'' @ dec (unat (r ! 1)) @ ''.'' @ dec (unat (r ! 2))
              @ ''.'' @ dec (unat (r ! 3)) @ [CHR 0x0A]) ` set (records_of log)"
    unfolding set_out_buildIps [of "[file \<mapsto> log]" "file" log, simplified]
    by (rule image_cong) (auto dest!: length_record simp: lineIps_record)
  have c24: "out (vars (buildInclude24s [file \<mapsto> [192, 168, 1, 17, 99, 99]] file sizes))
     = [''192.168.1.0/24'' @ [CHR 0x0A]]"
    by (simp only: g24 dec_192 dec_168 dec_1) simp
  have cIps: "out (vars (buildIncludeIps [file \<mapsto> [192, 168, 1, 17, 99, 99]] file sizes))
     = [''192.168.1.17'' @ [CHR 0x0A]]"
    by (simp only: gIps dec_192 dec_168 dec_1 dec_17) simp
  from c24 cIps g24 gIps s24 sIps show ?thesis by (intro conjI)
qed

lemma records_of_head: "records_of (take (6 * (length xs div 6)) xs) = records_of xs"
proof -
  let ?h = "take (6 * (length xs div 6)) xs"
  have len: "length ?h mod 6 = 0" by (simp only: length_head) simp
  have short: "records_of (tail_of xs) = []"
    by (rule records_of_short) (simp add: length_tail_of)
  have "records_of xs = records_of (?h @ tail_of xs)" by (simp add: head_tail_of)
  also have "\<dots> = records_of ?h" using len short by (simp add: records_of_append_aligned)
  finally show ?thesis by simp
qed

lemma pending_len_data24:
  "pending_len (fold (\<lambda>c s. on_data24 s c) chunks fresh) = length (concat chunks) mod 6"
  using length_tail_of [of "concat chunks"]
  by (auto simp: data24_fold pending_len_def simp del: length_concat)

lemma pending_len_dataIps:
  "pending_len (fold (\<lambda>c s. on_dataIps s c) chunks fresh) = length (concat chunks) mod 6"
  using length_tail_of [of "concat chunks"]
  by (auto simp: dataIps_fold pending_len_def simp del: length_concat)

lemma mod6_le5: "(n::nat) mod 6 \<le> 5"
proof -
  have "n mod 6 < 6" by simp
  then show ?thesis by linarith
qed

text \<open>
  C6. When the length of the log is not a multiple of 6 the build still completes: the
  promise is fulfilled and nothing is left uncaught; the final \<open>len mod 6\<close> bytes are
  still in \<open>remainder\<close> at end-of-input and are dropped there, and the lines written are
  those of the log cut back to its complete records. After every chunk the remainder
  carried to the next holds between 0 and 5 bytes.
\<close>

theorem C6_partial_tail_discarded:
  assumes "fs file = Some log" and "length log mod 6 \<noteq> 0"
  shows "promise (buildInclude24s fs file sizes) = Fulfilled
       \<and> uncaught (buildInclude24s fs file sizes) = None
       \<and> remainder (vars (buildInclude24s fs file sizes)) = Some (tail_of log)
       \<and> out (vars (buildInclude24s fs file sizes))
           = out (vars (buildInclude24s (fs(file \<mapsto> take (6 * (length log div 6)) log))
                          file sizes'))
       \<and> promise (buildIncludeIps fs file sizes) = Fulfilled
       \<and> uncaught (buildIncludeIps fs file sizes) = None
       \<and> remainder (vars (buildIncludeIps fs file sizes)) = Some (tail_of log)
       \<and> out (vars (buildIncludeIps fs file sizes))
           = out (vars (buildIncludeIps (fs(file \<mapsto> take (6 * (length log div 6)) log))
                          file sizes'))
       \<and> length (tail_of log) = length log mod 6
       \<and> pending_len (fold (\<lambda>c s. on_data24 s c) chunks fresh) \<le> 5
       \<and> pending_len (fold (\<lambda>c s. on_dataIps s c) chunks fresh) \<le> 5"
proof -
  let ?cut = "take (6 * (length log div 6)) log"
  have t: "tail_of log \<noteq> []" using assms(2) length_tail_of [of log] by auto
  have cut: "(fs(file \<mapsto> ?cut)) file = Some ?cut" by simp
  have k3: "keys3 ?cut = keys3 log" by (simp add: keys3_def records_of_head)
  have k4: "keys4 ?cut = keys4 log" by (simp add: keys4_def records_of_head)
  have o24: "out (vars (buildInclude24s fs file sizes))
      = out (vars (buildInclude24s (fs(file \<mapsto> ?cut)) file sizes'))"
    by (simp only: out_build24 [of fs "file" log, OF assms(1)]
        out_build24 [of "fs(file \<mapsto> ?cut)" "file" ?cut, OF cut] k3)
  have oIps: "out (vars (buildIncludeIps fs file sizes))
      = out (vars (buildIncludeIps (fs(file \<mapsto> ?cut)) file sizes'))"
    by (simp only: out_buildIps [of fs "file" log, OF assms(1)]
        out_buildIps [of "fs(file \<mapsto> ?cut)" "file" ?cut, OF cut] k4)
  have r24: "remainder (vars (buildInclude24s fs file sizes)) = Some (tail_of log)"
    using t by (simp add: build24_log [of fs "file" log, OF assms(1)] data24_fold concat_chop)
  have rIps: "remainder (vars (buildIncludeIps fs file sizes)) = Some (tail_of log)"
    using t by (simp add: buildIps_log [of fs "file" log, OF assms(1)] dataIps_fold concat_chop)
  have p24: "promise (buildInclude24s fs file sizes) = Fulfilled"
    and u24: "uncaught (buildInclude24s fs file sizes) = None"
    by (simp_all add: build24_log [of fs "file" log, OF assms(1)])
  have pIps: "promise (buildIncludeIps fs file sizes) = Fulfilled"
    and uIps: "uncaught (buildIncludeIps fs file sizes) = None"
    by (simp_all add: buildIps_log [of fs "file" log, OF assms(1)])
  have b24: "pending_len (fold (\<lambda>c s. on_data24 s c) chunks fresh) \<le> 5"
    by (simp only: pending_len_data24 mod6_le5)
  have bIps: "pending_len (fold (\<lambda>c s. on_dataIps s c) chunks fresh) \<le> 5"
    by (simp only: pending_len_dataIps mod6_le5)
  from p24 u24 r24 o24 pIps uIps rIps oIps length_tail_of [of log] b24 bIps
  show ?thesis by (intro conjI)
qed

theorem C6_partial_tail_discarded_witness:
  "promise (buildInclude24s [''ips'' \<mapsto> [10, 0, 0, 1, 99, 221, 10, 0]] ''ips'' [2, 2]) = Fulfilled
 \<and> remainder (vars (buildInclude24s [''ips'' \<mapsto> [10, 0, 0, 1, 99, 221, 10, 0]] ''ips'' [2, 2]))
     = Some [10, 0]"
proof -
  let ?log = "[10, 0, 0, 1, 99, 221, 10, 0 :: byte]"
  have h1: "[''ips'' \<mapsto> ?log] ''ips'' = Some ?log" by simp
  have h2: "length ?log mod 6 \<noteq> 0" by simp
  have t: "tail_of ?log = [10, 0]" by (simp add: tail_of_def)
  from C6_partial_tail_discarded [of "[''ips'' \<mapsto> ?log]" "''ips''" ?log "[2, 2]", OF h1 h2]
  have "promise (buildInclude24s [''ips'' \<mapsto> ?log] ''ips'' [2, 2]) = Fulfilled
      \<and> remainder (vars (buildInclude24s [''ips'' \<mapsto> ?log] ''ips'' [2, 2])) = Some (tail_of ?log)"
    by blast
  then show ?thesis by (simp only: t)
qed

text \<open>
  C10. When the result log does not exist, neither build succeeds with an empty list: the
  promise of \<open>buildInclude24s\<close> is rejected with the \<open>ENOENT\<close> that \<open>statSync\<close> throws
  inside the executor, whatever the streams would deliver, and the promise of
  \<open>buildIncludeIps\<close> with the \<open>ENOENT\<close> of the read stream's \<open>'error'\<close> event.
\<close>

theorem C10_missing_log_rejects:
  assumes "fs file = None"
  shows "statSync fs file = Inl (SysError ENOENT Stat)
       \<and> promise (buildInclude24s_on (statSync fs file) evs) = Rejected (SysError ENOENT Stat)
       \<and> promise (buildInclude24s fs file sizes) = Rejected (SysError ENOENT Stat)
       \<and> await_build (buildInclude24s fs file sizes) = Throw (SysError ENOENT Stat)
       \<and> createReadStream fs file sizes = [SrcError (SysError ENOENT Open)]
       \<and> promise (buildIncludeIps fs file sizes) = Rejected (SysError ENOENT Open)
       \<and> await_build (buildIncludeIps fs file sizes) = Throw (SysError ENOENT Open)"
  using assms
  by (simp add: statSync_def createReadStream_def buildInclude24s_def buildInclude24s_on_def
      buildIncludeIps_def buildIncludeIps_on_def await_build_def start_def settle_def)

theorem C10_missing_log_rejects_witness:
  "promise (buildInclude24s [''includeFile.txt'' \<mapsto> []] ''ips'' [4]) = Rejected (SysError ENOENT Stat)
 \<and> promise (buildIncludeIps [''includeFile.txt'' \<mapsto> []] ''ips'' [4]) = Rejected (SysError ENOENT Open)"
proof -
  have h: "[''includeFile.txt'' \<mapsto> ([] :: buffer)] ''ips'' = None" by simp
  from C10_missing_log_rejects [of "[''includeFile.txt'' \<mapsto> []]" "''ips''" _ "[4]", OF h]
  show ?thesis by blast
qed

subsection \<open>Errors of the two streams\<close>

lemma deliver_no_reject:
  assumes "\<And>s ev. (\<forall>e. ev \<noteq> SrcError e) \<Longrightarrow> promise s \<noteq> Rejected x \<Longrightarrow> promise (h s ev) \<noteq> Rejected x"
    and "\<forall>e. SrcError e \<notin> set evs" and "promise s \<noteq> Rejected x"
  shows "promise (deliver h s evs) \<noteq> Rejected x"
  using assms(2,3)
proof (induction evs arbitrary: s)
  case Nil
  then show ?case by simp
next
  case (Cons ev evs)
  from Cons.prems have "\<forall>e. ev \<noteq> SrcError e" by auto
  from assms(1) [OF this Cons.prems(2)] Cons show ?case by simp
qed

lemma handle24_no_reject:
  "(\<forall>e. ev \<noteq> SrcError e) \<Longrightarrow> promise s \<noteq> Rejected x \<Longrightarrow> promise (handle24 s ev) \<noteq> Rejected x"
  by (cases ev) (auto simp: settle_def split: promise.splits)

lemma handleIps_no_reject:
  "(\<forall>e. ev \<noteq> SrcError e) \<Longrightarrow> promise s \<noteq> Rejected x \<Longrightarrow> promise (handleIps s ev) \<noteq> Rejected x"
  by (cases ev) (auto simp: settle_def split: promise.splits)

lemma out_error_never_rejects:
  assumes "\<forall>e. SrcError e \<notin> set evs"
  shows "promise (buildIncludeIps_on evs) \<noteq> Rejected x"
    and "promise (buildInclude24s_on (Inr sz) evs) \<noteq> Rejected x"
  using deliver_no_reject [of x handleIps evs start, OF handleIps_no_reject assms]
    deliver_no_reject [of x handle24 evs start, OF handle24_no_reject assms]
  by (simp_all add: buildIncludeIps_on_def buildInclude24s_on_def start_def)

lemma src_error_rejects:
  "promise (buildIncludeIps_on (map Data chunks @ SrcError e # evs)) = Rejected e"
  "promise (buildInclude24s_on (Inr sz) (map Data chunks @ SrcError e # evs)) = Rejected e"
proof -
  have keep: "promise (deliver h s evs) = Rejected e"
    if "promise s = Rejected e"
      and "\<And>s ev. promise s = Rejected e \<Longrightarrow> promise (h s ev) = Rejected e"
    for h s
    using that(1)
  proof (induction evs arbitrary: s)
    case Nil
    then show ?case by simp
  next
    case (Cons ev evs)
    from that(2) [OF Cons.prems] Cons show ?case by simp
  qed
  have kIps: "promise (handleIps s ev) = Rejected e" if "promise s = Rejected e" for s ev
    using that by (cases ev) (simp_all add: settle_def)
  have k24: "promise (handle24 s ev) = Rejected e" if "promise s = Rejected e" for s ev
    using that by (cases ev) (simp_all add: settle_def)
  show "promise (buildIncludeIps_on (map Data chunks @ SrcError e # evs)) = Rejected e"
    by (simp add: buildIncludeIps_on_def deliverIps_data)
       (auto simp: start_def settle_def intro!: keep kIps)
  show "promise (buildInclude24s_on (Inr sz) (map Data chunks @ SrcError e # evs)) = Rejected e"
    by (simp add: buildInclude24s_on_def deliver24_data)
       (auto simp: start_def settle_def intro!: keep k24)
qed

text \<open>
  C7, on the destination side. With the one-record log of C5 and an \<open>'error'\<close> event of
  \<open>out\<close> (the output file cannot be opened, or a write fails), the promise of either
  builder is not rejected: an error that arrives before \<open>'end'\<close> finds no listener and
  leaves the promise pending, and one that arrives after \<open>'end'\<close> finds it fulfilled, so
  that \<open>await\<close> reports success.
\<close>

theorem C7_destination_error_not_rejected:
  "promise (buildIncludeIps_on
      [OutError (SysError EACCES Open), Data [192, 168, 1, 17, 99, 99], End]) = Pending
 \<and> promise (buildInclude24s_on (Inr 6)
      [OutError (SysError EACCES Open), Data [192, 168, 1, 17, 99, 99], End]) = Pending
 \<and> promise (buildIncludeIps_on
      [Data [192, 168, 1, 17, 99, 99], End, OutError (SysError ENOSPC Write)]) = Fulfilled
 \<and> await_build (buildIncludeIps_on
      [Data [192, 168, 1, 17, 99, 99], End, OutError (SysError ENOSPC Write)]) = Ok
 \<and> promise (buildInclude24s_on (Inr 6)
      [Data [192, 168, 1, 17, 99, 99], End, OutError (SysError ENOSPC Write)]) = Fulfilled
 \<and> await_build (buildInclude24s_on (Inr 6)
      [Data [192, 168, 1, 17, 99, 99], End, OutError (SysError ENOSPC Write)]) = Ok"
  by (simp add: buildIncludeIps_on_def buildInclude24s_on_def start_def settle_def
      await_build_def)

section \<open>The pipeline: which calls a run makes\<close>

lemma keepsD:
  "keeps P a \<Longrightarrow> \<forall>x\<in>set (trace w). P x \<Longrightarrow> \<forall>x\<in>set (trace (snd (a w))). P x"
  by (simp add: keeps_def)

lemma keeps_then_do:
  assumes "keeps P a" and "keeps P b"
  shows "keeps P (then_do a b)"
  unfolding keeps_def
proof (intro allI impI)
  fix w :: world
  assume w: "\<forall>x\<in>set (trace w). P x"
  from keepsD [OF assms(1) w] have aw: "\<forall>x\<in>set (trace (snd (a w))). P x" .
  from keepsD [OF assms(2) aw] have "\<forall>x\<in>set (trace (snd (b (snd (a w))))). P x" .
  with aw show "\<forall>x\<in>set (trace (snd (then_do a b w))). P x"
    by (cases "a w") (auto simp: then_do_def split: status.splits)
qed

lemma keeps_when_do: "(c \<Longrightarrow> keeps P a) \<Longrightarrow> keeps P (when_do c a)"
  by (cases c) (simp_all add: keeps_def when_do_def)

lemma keeps_try_catch:
  assumes "keeps P a" and "\<And>e. keeps P (h e)"
  shows "keeps P (try_catch a h)"
  unfolding keeps_def
proof (intro allI impI)
  fix w :: world
  assume w: "\<forall>x\<in>set (trace w). P x"
  from keepsD [OF assms(1) w] have aw: "\<forall>x\<in>set (trace (snd (a w))). P x" .
  from keepsD [OF assms(2) aw] have "\<forall>x\<in>set (trace (snd (h e (snd (a w))))). P x" for e .
  with aw show "\<forall>x\<in>set (trace (snd (try_catch a h w))). P x"
    by (cases "a w") (auto simp: try_catch_def split: status.splits)
qed

lemma keeps_masscan:
  "(\<And>s. P (Masscan cmd outfile tag, s)) \<Longrightarrow> keeps P (call_masscan ev cmd outfile tag)"
  by (auto simp: keeps_def call_masscan_def awaiting_def record_call_def
      split: prod.splits option.splits)

lemma keeps_minecraftCheck:
  "(\<And>s. P (MinecraftCheck infile outfile tag rest, s)) \<Longrightarrow>
   keeps P (call_minecraftCheck ev infile outfile tag rest)"
  by (auto simp: keeps_def call_minecraftCheck_def awaiting_def record_call_def
      split: prod.splits option.splits)

lemma keeps_build24:
  "(\<And>s. P (BuildInclude24s file, s)) \<Longrightarrow> keeps P (call_buildInclude24s ev file)"
  by (auto simp: keeps_def call_buildInclude24s_def awaiting_def record_call_def Let_def
      split: option.splits)

lemma keeps_buildIps:
  "(\<And>s. P (BuildIncludeIps file, s)) \<Longrightarrow> keeps P (call_buildIncludeIps ev file)"
  by (auto simp: keeps_def call_buildIncludeIps_def awaiting_def record_call_def Let_def
      split: option.splits)

lemma keeps_git: "(\<And>s. P (Git op, s)) \<Longrightarrow> keeps P (git_call ev op)"
  by (auto simp: keeps_def git_call_def awaiting_def record_call_def split: option.splits)

lemma keeps_git_new: "(\<And>s. P (Git SimpleGit, s)) \<Longrightarrow> keeps P (git_new ev)"
  by (auto simp: keeps_def git_new_def record_call_def)

lemma keeps_console_log: "P (ConsoleLog msg, Ok) \<Longrightarrow> keeps P (console_log msg)"
  by (auto simp: keeps_def console_log_def record_call_def)

lemma keeps_console_error: "P (ConsoleError msg e, Ok) \<Longrightarrow> keeps P (console_error msg e)"
  by (auto simp: keeps_def console_error_def record_call_def)

lemma keeps_process_exit: "P (ProcessExit, Exited) \<Longrightarrow> keeps P process_exit"
  by (auto simp: keeps_def process_exit_def record_call_def)

lemma keeps_scanDefaultPort:
  assumes "\<And>cmd s. P (Masscan cmd ''ipsUnfiltered_pass1'' ''[1] [Java]'', s)"
    and "\<And>s. P (MinecraftCheck ''ipsUnfiltered_pass1'' ''ips'' ''[1] [Java]'' [], s)"
  shows "keeps P (scanDefaultPort cfg ev)"
  unfolding scanDefaultPort_def Let_def
  by (intro keeps_then_do keeps_masscan keeps_minecraftCheck assms)

lemma keeps_scanNearPorts:
  assumes "\<And>s. P (BuildInclude24s ''ips'', s)"
    and "\<And>cmd s. P (Masscan cmd ''ipsUnfiltered_pass2'' ''[2] [Java]'', s)"
    and "\<And>s. P (MinecraftCheck ''ipsUnfiltered_pass2'' ''ips'' ''[2] [Java]'' [''java'', ''a''], s)"
  shows "keeps P (scanNearPorts cfg ev)"
  unfolding scanNearPorts_def Let_def
  by (intro keeps_then_do keeps_masscan keeps_minecraftCheck keeps_build24 assms)

lemma keeps_scanAllPorts:
  assumes "\<And>s. P (BuildIncludeIps ''ips'', s)"
    and "\<And>cmd s. P (Masscan cmd ''ipsUnfiltered_pass3'' ''[3] [Java]'', s)"
    and "\<And>s. P (MinecraftCheck ''ipsUnfiltered_pass3'' ''ips'' ''[3] [Java]'' [''java'', ''a''], s)"
  shows "keeps P (scanAllPorts cfg ev)"
  unfolding scanAllPorts_def Let_def
  by (intro keeps_then_do keeps_masscan keeps_minecraftCheck keeps_buildIps assms)

lemma keeps_pushToGit:
  assumes "\<And>op s. P (Git op, s)" and "\<And>msg. P (ConsoleLog msg, Ok)"
    and "\<And>msg e. P (ConsoleError msg e, Ok)"
  shows "keeps P (pushToGit cfg ev)"
  unfolding pushToGit_def
  by (intro keeps_try_catch keeps_then_do keeps_when_do keeps_git keeps_git_new
      keeps_console_log keeps_console_error assms)

lemma keeps_init:
  "keeps P a \<Longrightarrow> \<forall>x\<in>set (trace (snd (a (init_world fs)))). P x"
  by (rule keepsD) (simp_all add: init_world_def)

text \<open>
  C8. With \<open>scan24s = false\<close> a run of \<open>main\<close> makes no call of Stage 2: it does not
  build the subnet-mode list and calls neither the scan nor the validator of that stage.
  With \<open>scanAllPorts = false\<close> the same holds of Stage 3 and the host-mode list.
\<close>

theorem C8_disabled_stage_never_runs:
  "(\<not> c_scan24s cfg \<longrightarrow> (\<forall>c\<in>set (calls (main cfg ev (init_world fs))). \<not> stage2_call c))
 \<and> (\<not> c_scanAllPorts cfg \<longrightarrow> (\<forall>c\<in>set (calls (main cfg ev (init_world fs))). \<not> stage3_call c))"
proof (intro conjI impI)
  assume off: "\<not> c_scan24s cfg"
  have "keeps (\<lambda>x. \<not> stage2_call (fst x)) (main cfg ev)"
    unfolding main_def
    by (intro keeps_then_do keeps_when_do keeps_scanDefaultPort keeps_scanAllPorts
        keeps_pushToGit keeps_process_exit) (simp_all add: off)
  from keeps_init [OF this, of fs]
  show "\<forall>c\<in>set (calls (main cfg ev (init_world fs))). \<not> stage2_call c"
    by (simp add: calls_def)
next
  assume off: "\<not> c_scanAllPorts cfg"
  have "keeps (\<lambda>x. \<not> stage3_call (fst x)) (main cfg ev)"
    unfolding main_def
    by (intro keeps_then_do keeps_when_do keeps_scanDefaultPort keeps_scanNearPorts
        keeps_pushToGit keeps_process_exit) (simp_all add: off)
  from keeps_init [OF this, of fs]
  show "\<forall>c\<in>set (calls (main cfg ev (init_world fs))). \<not> stage3_call c"
    by (simp add: calls_def)
qed

section \<open>The pipeline: failures\<close>

lemma settled_butlast: "\<forall>x\<in>set tr. settled x \<Longrightarrow> \<forall>x\<in>set (butlast tr). settled x"
  by (auto dest: in_set_butlastD)

lemma stops_then_do:
  assumes "stops_on_failure a" and "stops_on_failure b"
  shows "stops_on_failure (then_do a b)"
  unfolding stops_on_failure_def
proof (intro allI impI)
  fix w :: world
  assume w: "\<forall>x\<in>set (trace w). settled x"
  from assms(1) w have fa: "fail_fast (a w)" by (simp add: stops_on_failure_def)
  show "fail_fast (then_do a b w)"
  proof (cases "fst (a w) = Ok")
    case True
    with fa have "\<forall>x\<in>set (trace (snd (a w))). settled x" by (simp add: fail_fast_def)
    with assms(2) have "fail_fast (b (snd (a w)))" by (simp add: stops_on_failure_def)
    with True show ?thesis by (cases "a w") (simp add: then_do_def)
  next
    case False
    then have "then_do a b w = a w"
      by (cases "a w") (auto simp: then_do_def split: status.splits)
    with fa show ?thesis by simp
  qed
qed

lemma stops_when_do:
  assumes "c \<Longrightarrow> stops_on_failure a"
  shows "stops_on_failure (when_do c a)"
proof (cases c)
  case True
  then have "when_do c a = a" by (simp add: when_do_def fun_eq_iff)
  with assms True show ?thesis by simp
next
  case False
  then have "when_do c a w = (Ok, w)" for w by (simp add: when_do_def)
  then show ?thesis
    by (simp add: stops_on_failure_def fail_fast_def settled_butlast)
qed

lemma fail_fast_append:
  "\<forall>x\<in>set tr. settled x \<Longrightarrow> trace w' = tr @ [(c, s)] \<Longrightarrow> fail_fast (s, w')"
  by (auto simp: fail_fast_def settled_def)

lemma stops_awaiting:
  assumes "\<And>w. \<forall>x\<in>set (trace w). settled x \<Longrightarrow> fail_fast (a w)"
  shows "stops_on_failure (awaiting c a)"
  unfolding stops_on_failure_def
proof (intro allI impI)
  fix w :: world
  assume w: "\<forall>x\<in>set (trace w). settled x"
  show "fail_fast (awaiting c a w)"
  proof (cases "pending_error w")
    case None
    with assms [OF w] show ?thesis by (simp add: awaiting_def)
  next
    case (Some e)
    then have "awaiting c a w = (Crash e, record_call c (Crash e) w)"
      by (simp add: awaiting_def)
    moreover have "fail_fast (Crash e, record_call c (Crash e) w)"
      by (rule fail_fast_append [OF w]) (simp add: record_call_def)
    ultimately show ?thesis by simp
  qed
qed

lemma stops_masscan: "stops_on_failure (call_masscan ev cmd outfile tag)"
  unfolding call_masscan_def
proof (rule stops_awaiting)
  fix w :: world
  assume w: "\<forall>x\<in>set (trace w). settled x"
  obtain s fs' where r: "masscan_run ev cmd outfile tag (files w) = (s, fs')"
    by (cases "masscan_run ev cmd outfile tag (files w)")
  show "fail_fast (case masscan_run ev cmd outfile tag (files w) of
      (s, fs') \<Rightarrow> (s, (record_call (Masscan cmd outfile tag) s w)\<lparr>files := fs'\<rparr>))"
    by (simp add: r, rule fail_fast_append [OF w]) (simp add: record_call_def)
qed

lemma stops_minecraftCheck: "stops_on_failure (call_minecraftCheck ev infile outfile tag rest)"
  unfolding call_minecraftCheck_def
proof (rule stops_awaiting)
  fix w :: world
  assume w: "\<forall>x\<in>set (trace w). settled x"
  obtain s fs' where r: "minecraftCheck_run ev infile outfile tag rest (files w) = (s, fs')"
    by (cases "minecraftCheck_run ev infile outfile tag rest (files w)")
  show "fail_fast (case minecraftCheck_run ev infile outfile tag rest (files w) of
      (s, fs') \<Rightarrow>
        (s, (record_call (MinecraftCheck infile outfile tag rest) s w)\<lparr>files := fs'\<rparr>))"
    by (simp add: r, rule fail_fast_append [OF w]) (simp add: record_call_def)
qed

lemma stops_build24: "stops_on_failure (call_buildInclude24s ev file)"
  unfolding call_buildInclude24s_def
proof (rule stops_awaiting)
  fix w :: world
  assume w: "\<forall>x\<in>set (trace w). settled x"
  show "fail_fast (let r = buildInclude24s_on (stat_answer ev file (files w))
                       (stream_events ev file (files w));
                 s = await_build r
             in (s, (record_call (BuildInclude24s file) s w)
                      \<lparr>files := after_build (files w) r, pending_error := late_error r\<rparr>))"
    by (simp add: Let_def, rule fail_fast_append [OF w]) (simp add: record_call_def)
qed

lemma stops_buildIps: "stops_on_failure (call_buildIncludeIps ev file)"
  unfolding call_buildIncludeIps_def
proof (rule stops_awaiting)
  fix w :: world
  assume w: "\<forall>x\<in>set (trace w). settled x"
  show "fail_fast (let r = buildIncludeIps_on (stream_events ev file (files w));
                 s = await_build r
             in (s, (record_call (BuildIncludeIps file) s w)
                      \<lparr>files := after_build (files w) r, pending_error := late_error r\<rparr>))"
    by (simp add: Let_def, rule fail_fast_append [OF w]) (simp add: record_call_def)
qed

lemma stops_process_exit: "stops_on_failure process_exit"
  unfolding stops_on_failure_def
proof (intro allI impI)
  fix w :: world
  assume w: "\<forall>x\<in>set (trace w). settled x"
  show "fail_fast (process_exit w)"
    by (simp add: process_exit_def, rule fail_fast_append [OF w]) (simp add: record_call_def)
qed

subsection \<open>The publish step ends \<open>Ok\<close> when no error is pending\<close>

lemma may_throwD:
  "may_throw a \<Longrightarrow> pending_error w = None \<Longrightarrow>
   (fst (a w) = Ok \<or> (\<exists>e. fst (a w) = Throw e)) \<and> pending_error (snd (a w)) = None"
  by (simp add: may_throw_def)

lemma may_throw_then_do:
  assumes "may_throw a" and "may_throw b"
  shows "may_throw (then_do a b)"
  unfolding may_throw_def
proof (intro allI impI)
  fix w :: world
  assume w: "pending_error w = None"
  from may_throwD [OF assms(1) w]
  have a: "fst (a w) = Ok \<or> (\<exists>e. fst (a w) = Throw e)"
    and pa: "pending_error (snd (a w)) = None" by simp_all
  from may_throwD [OF assms(2) pa]
  have b: "fst (b (snd (a w))) = Ok \<or> (\<exists>e. fst (b (snd (a w))) = Throw e)"
    and pb: "pending_error (snd (b (snd (a w)))) = None" by simp_all
  from a b pa pb
  show "(fst (then_do a b w) = Ok \<or> (\<exists>e. fst (then_do a b w) = Throw e))
      \<and> pending_error (snd (then_do a b w)) = None"
    by (cases "a w") (auto simp: then_do_def split: status.splits)
qed

lemma may_throw_when_do: "may_throw a \<Longrightarrow> may_throw (when_do c a)"
  by (simp add: may_throw_def when_do_def)

lemma git_result_cases: "git_result ev op = Ok \<or> (\<exists>e. git_result ev op = Throw e)"
  by (simp add: git_result_def split: option.splits)

lemma may_throw_git: "may_throw (git_call ev op)"
  using git_result_cases [of ev op]
  by (auto simp: may_throw_def git_call_def awaiting_def record_call_def)

lemma may_throw_git_new: "may_throw (git_new ev)"
  using git_result_cases [of ev SimpleGit]
  by (auto simp: may_throw_def git_new_def record_call_def)

lemma may_throw_console_log: "may_throw (console_log msg)"
  by (simp add: may_throw_def console_log_def record_call_def)

lemma try_catch_ok:
  assumes "may_throw a" and "\<And>e w. fst (h e w) = Ok" and "pending_error w = None"
  shows "fst (try_catch a h w) = Ok"
proof -
  from may_throwD [OF assms(1,3)] have "fst (a w) = Ok \<or> (\<exists>e. fst (a w) = Throw e)" by simp
  then show ?thesis
    by (cases "a w") (auto simp: try_catch_def assms(2) split: status.splits)
qed

lemma pushToGit_ok: "pending_error w = None \<Longrightarrow> fst (pushToGit cfg ev w) = Ok"
  unfolding pushToGit_def
  by (rule try_catch_ok)
     (intro may_throw_then_do may_throw_when_do may_throw_git may_throw_git_new
        may_throw_console_log,
      simp_all add: console_error_def)

lemma settled_publish: "publish_call c \<Longrightarrow> settled (c, s)"
  by (simp add: settled_def)

subsection \<open>A run that does not end \<open>Ok\<close> has the status of its last call\<close>

lemma reports_then_do:
  assumes "reports_last a" and "reports_last b"
  shows "reports_last (then_do a b)"
  unfolding reports_last_def
proof (intro allI impI)
  fix w :: world
  assume n: "fst (then_do a b w) \<noteq> Ok"
  show "trace (snd (then_do a b w)) \<noteq> []
      \<and> snd (last (trace (snd (then_do a b w)))) = fst (then_do a b w)"
  proof (cases "fst (a w) = Ok")
    case True
    then have e: "then_do a b w = b (snd (a w))" by (cases "a w") (simp add: then_do_def)
    with n assms(2) show ?thesis by (simp add: reports_last_def)
  next
    case False
    then have e: "then_do a b w = a w"
      by (cases "a w") (auto simp: then_do_def split: status.splits)
    with False assms(1) show ?thesis by (simp add: reports_last_def)
  qed
qed

lemma reports_when_do: "reports_last a \<Longrightarrow> reports_last (when_do c a)"
  by (simp add: reports_last_def when_do_def)

lemma reports_git: "reports_last (git_call ev op)"
  by (auto simp: reports_last_def git_call_def awaiting_def record_call_def split: option.splits)

lemma reports_git_new: "reports_last (git_new ev)"
  by (simp add: reports_last_def git_new_def record_call_def)

lemma reports_console_log: "reports_last (console_log msg)"
  by (simp add: reports_last_def console_log_def)

lemma reports_try_catch:
  assumes "reports_last a" and "\<And>e w. fst (h e w) = Ok"
  shows "reports_last (try_catch a h)"
  unfolding reports_last_def
proof (intro allI impI)
  fix w :: world
  assume n: "fst (try_catch a h w) \<noteq> Ok"
  have "try_catch a h w = a w"
  proof (cases "\<exists>e. fst (a w) = Throw e")
    case True
    then obtain e where "fst (a w) = Throw e" by blast
    then have "try_catch a h w = h e (snd (a w))" by (cases "a w") (simp add: try_catch_def)
    with n assms(2) show ?thesis by simp
  next
    case False
    then show ?thesis by (cases "a w") (auto simp: try_catch_def split: status.splits)
  qed
  with n assms(1) show "trace (snd (try_catch a h w)) \<noteq> []
      \<and> snd (last (trace (snd (try_catch a h w)))) = fst (try_catch a h w)"
    by (simp add: reports_last_def)
qed

lemma reports_pushToGit: "reports_last (pushToGit cfg ev)"
  unfolding pushToGit_def
  by (rule reports_try_catch)
     (intro reports_then_do reports_when_do reports_git reports_git_new reports_console_log,
      simp add: console_error_def)

lemma stops_pushToGit: "stops_on_failure (pushToGit cfg ev)"
  unfolding stops_on_failure_def
proof (intro allI impI)
  fix w :: world
  assume w: "\<forall>x\<in>set (trace w). settled x"
  have "keeps settled (pushToGit cfg ev)"
    by (rule keeps_pushToGit) (simp_all add: settled_def)
  from keepsD [OF this w] have "\<forall>x\<in>set (trace (snd (pushToGit cfg ev w))). settled x" .
  with reports_pushToGit [of cfg ev] show "fail_fast (pushToGit cfg ev w)"
    by (simp add: fail_fast_def reports_last_def settled_butlast)
qed

lemma stops_main: "stops_on_failure (main cfg ev)"
  unfolding main_def scanDefaultPort_def scanNearPorts_def scanAllPorts_def Let_def
  by (intro stops_then_do stops_when_do stops_masscan stops_minecraftCheck stops_build24
      stops_buildIps stops_pushToGit stops_process_exit)

lemma then_do_never_ok: "(\<And>w. fst (b w) \<noteq> Ok) \<Longrightarrow> fst (then_do a b w) \<noteq> Ok"
  by (cases "a w") (auto simp: then_do_def split: status.splits)

lemma main_never_ok: "fst (main cfg ev w) \<noteq> Ok"
  unfolding main_def
  by (intro then_do_never_ok) (simp add: process_exit_def)

subsection \<open>What the classification of calls covers\<close>

lemma scanNearPorts_calls_stage2: "keeps (\<lambda>x. stage2_call (fst x)) (scanNearPorts cfg ev)"
  by (rule keeps_scanNearPorts) simp_all

lemma scanAllPorts_calls_stage3: "keeps (\<lambda>x. stage3_call (fst x)) (scanAllPorts cfg ev)"
  by (rule keeps_scanAllPorts) simp_all

lemma pushToGit_calls_publish: "keeps (\<lambda>x. publish_call (fst x)) (pushToGit cfg ev)"
  by (rule keeps_pushToGit) simp_all

theorem C8_disabled_stage_never_runs_witness:
  "BuildInclude24s ''ips''
     \<notin> set (calls (main (example_config\<lparr>c_scan24s := False\<rparr>) example_env
              (init_world Map.empty)))
 \<and> BuildIncludeIps ''ips''
     \<notin> set (calls (main (example_config\<lparr>c_scanAllPorts := False\<rparr>) example_env
              (init_world Map.empty)))"
proof -
  have h2: "\<not> c_scan24s (example_config\<lparr>c_scan24s := False\<rparr>)" by simp
  have h3: "\<not> c_scanAllPorts (example_config\<lparr>c_scanAllPorts := False\<rparr>)" by simp
  have s2: "stage2_call (BuildInclude24s ''ips'')" and s3: "stage3_call (BuildIncludeIps ''ips'')"
    by simp_all
  from C8_disabled_stage_never_runs [of "example_config\<lparr>c_scan24s := False\<rparr>" example_env Map.empty]
    C8_disabled_stage_never_runs [of "example_config\<lparr>c_scanAllPorts := False\<rparr>" example_env Map.empty]
    h2 h3 s2 s3
  show ?thesis by blast
qed

section \<open>The pipeline: the publish step\<close>

subsection \<open>A stage that ends \<open>Ok\<close> leaves no error pending\<close>

lemma then_do_clears:
  assumes "fst (then_do a b w) = Ok"
    and "\<And>w'. fst (b w') = Ok \<Longrightarrow> pending_error (snd (b w')) = None"
  shows "pending_error (snd (then_do a b w)) = None"
proof (cases "fst (a w) = Ok")
  case True
  then have e: "then_do a b w = b (snd (a w))" by (cases "a w") (simp add: then_do_def)
  with assms show ?thesis by simp
next
  case False
  then have "then_do a b w = a w"
    by (cases "a w") (auto simp: then_do_def split: status.splits)
  with assms(1) False show ?thesis by simp
qed

lemma minecraftCheck_clears:
  "fst (call_minecraftCheck ev infile outfile tag rest w) = Ok \<Longrightarrow>
   pending_error (snd (call_minecraftCheck ev infile outfile tag rest w)) = None"
  by (auto simp: call_minecraftCheck_def awaiting_def record_call_def
      split: option.splits prod.splits)

lemma scanDefaultPort_clears:
  "fst (scanDefaultPort cfg ev w) = Ok \<Longrightarrow> pending_error (snd (scanDefaultPort cfg ev w)) = None"
  unfolding scanDefaultPort_def Let_def
  by (erule then_do_clears) (erule minecraftCheck_clears)

lemma scanNearPorts_clears:
  "fst (scanNearPorts cfg ev w) = Ok \<Longrightarrow> pending_error (snd (scanNearPorts cfg ev w)) = None"
  unfolding scanNearPorts_def Let_def
  by (erule then_do_clears) (erule then_do_clears, erule minecraftCheck_clears)

lemma scanAllPorts_clears:
  "fst (scanAllPorts cfg ev w) = Ok \<Longrightarrow> pending_error (snd (scanAllPorts cfg ev w)) = None"
  unfolding scanAllPorts_def Let_def
  by (erule then_do_clears) (erule then_do_clears, erule minecraftCheck_clears)

lemma stage_ok_clears:
  "ok_clears (when_do c1 (scanDefaultPort cfg ev))"
  "ok_clears (when_do c2 (scanNearPorts cfg ev))"
  "ok_clears (when_do c3 (scanAllPorts cfg ev))"
  by (auto simp: ok_clears_def when_do_def scanDefaultPort_clears scanNearPorts_clears
      scanAllPorts_clears)

subsection \<open>Publishing does not change the status of a run\<close>

lemma status_through:
  assumes "ok_clears a" and "pending_error w = None"
    and "\<And>w'. pending_error w' = None \<Longrightarrow> fst (b w') = fst (b' w')"
  shows "fst (then_do a b w) = fst (then_do a b' w)"
proof (cases "fst (a w) = Ok")
  case True
  with assms(1,2) have "pending_error (snd (a w)) = None" by (simp add: ok_clears_def)
  from assms(3) [OF this] True show ?thesis by (cases "a w") (simp add: then_do_def)
next
  case False
  then show ?thesis by (cases "a w") (auto simp: then_do_def split: status.splits)
qed

lemma scans_no_push:
  "scanDefaultPort (no_push cfg) ev = scanDefaultPort cfg ev"
  "scanNearPorts (no_push cfg) ev = scanNearPorts cfg ev"
  "scanAllPorts (no_push cfg) ev = scanAllPorts cfg ev"
  by (simp_all add: scanDefaultPort_def scanNearPorts_def scanAllPorts_def no_push_def
      sudo_prefix_def)

lemma publish_then_exit:
  assumes "pending_error w = None"
  shows "fst (then_do (when_do c (pushToGit cfg ev)) process_exit w) = Exited"
proof -
  have "fst (when_do c (pushToGit cfg ev) w) = Ok"
    using assms by (simp add: when_do_def pushToGit_ok)
  then show ?thesis
    by (cases "when_do c (pushToGit cfg ev) w") (simp add: then_do_def process_exit_def)
qed

lemma main_status_no_push:
  "fst (main cfg ev (init_world fs)) = fst (main (no_push cfg) ev (init_world fs))"
proof -
  let ?tail = "then_do (when_do (push (c_git cfg)) (pushToGit cfg ev)) process_exit"
  let ?tail' = "then_do (when_do (push (c_git (no_push cfg))) (pushToGit (no_push cfg) ev))
      process_exit"
  have flags: "c_scanPort (no_push cfg) = c_scanPort cfg"
    "c_scan24s (no_push cfg) = c_scan24s cfg"
    "c_scanAllPorts (no_push cfg) = c_scanAllPorts cfg"
    by (simp_all add: no_push_def)
  have t: "fst (?tail w) = fst (?tail' w)" if "pending_error w = None" for w
    by (simp only: publish_then_exit [OF that])
  have l3: "fst (then_do (when_do (c_scanAllPorts cfg) (scanAllPorts cfg ev)) ?tail w)
      = fst (then_do (when_do (c_scanAllPorts cfg) (scanAllPorts cfg ev)) ?tail' w)"
    if "pending_error w = None" for w
    using stage_ok_clears(3) that t by (rule status_through)
  have l2: "fst (then_do (when_do (c_scan24s cfg) (scanNearPorts cfg ev))
        (then_do (when_do (c_scanAllPorts cfg) (scanAllPorts cfg ev)) ?tail) w)
      = fst (then_do (when_do (c_scan24s cfg) (scanNearPorts cfg ev))
        (then_do (when_do (c_scanAllPorts cfg) (scanAllPorts cfg ev)) ?tail') w)"
    if "pending_error w = None" for w
    using stage_ok_clears(2) that l3 by (rule status_through)
  have p0: "pending_error (init_world fs) = None" by (simp add: init_world_def)
  show ?thesis
    unfolding main_def scans_no_push flags
    using stage_ok_clears(1) p0 l2 by (rule status_through)
qed

text \<open>Properties that hold of any trace without publish entries pass through the stages.\<close>

lemma through_stage:
  assumes a: "keeps (\<lambda>x. \<not> publish_call (fst x)) a"
    and ca: "ok_clears a"
    and b: "\<And>w. \<forall>x\<in>set (trace w). \<not> publish_call (fst x) \<Longrightarrow> pending_error w = None \<Longrightarrow> G (b w)"
    and vac: "\<And>r. \<forall>x\<in>set (trace (snd r)). \<not> publish_call (fst x) \<Longrightarrow> G r"
    and w: "\<forall>x\<in>set (trace w). \<not> publish_call (fst x)"
    and pw: "pending_error w = None"
  shows "G (then_do a b w)"
proof -
  from keepsD [OF a w] have aw: "\<forall>x\<in>set (trace (snd (a w))). \<not> publish_call (fst x)" .
  show ?thesis
  proof (cases "fst (a w) = Ok")
    case True
    with ca pw have "pending_error (snd (a w)) = None" by (simp add: ok_clears_def)
    from b [OF aw this] True show ?thesis by (cases "a w") (simp add: then_do_def)
  next
    case False
    then have "then_do a b w = a w"
      by (cases "a w") (auto simp: then_do_def split: status.splits)
    with vac [OF aw] show ?thesis by simp
  qed
qed

lemma stage_no_publish:
  "keeps (\<lambda>x. \<not> publish_call (fst x)) (when_do c1 (scanDefaultPort cfg ev))"
  "keeps (\<lambda>x. \<not> publish_call (fst x)) (when_do c2 (scanNearPorts cfg ev))"
  "keeps (\<lambda>x. \<not> publish_call (fst x)) (when_do c3 (scanAllPorts cfg ev))"
  by (intro keeps_when_do keeps_scanDefaultPort keeps_scanNearPorts keeps_scanAllPorts; simp)+

lemma through_stages:
  assumes tail: "\<And>w. \<forall>x\<in>set (trace w). \<not> publish_call (fst x) \<Longrightarrow> pending_error w = None \<Longrightarrow>
        G (then_do (when_do (push (c_git cfg)) (pushToGit cfg ev)) process_exit w)"
    and vac: "\<And>r. \<forall>x\<in>set (trace (snd r)). \<not> publish_call (fst x) \<Longrightarrow> G r"
  shows "G (main cfg ev (init_world fs))"
proof -
  let ?tail = "then_do (when_do (push (c_git cfg)) (pushToGit cfg ev)) process_exit"
  have l3: "G (then_do (when_do (c_scanAllPorts cfg) (scanAllPorts cfg ev)) ?tail w)"
    if "\<forall>x\<in>set (trace w). \<not> publish_call (fst x)" and "pending_error w = None" for w
    using stage_no_publish(3) stage_ok_clears(3) tail vac that by (rule through_stage)
  have l2: "G (then_do (when_do (c_scan24s cfg) (scanNearPorts cfg ev))
        (then_do (when_do (c_scanAllPorts cfg) (scanAllPorts cfg ev)) ?tail) w)"
    if "\<forall>x\<in>set (trace w). \<not> publish_call (fst x)" and "pending_error w = None" for w
    using stage_no_publish(2) stage_ok_clears(2) l3 vac that by (rule through_stage)
  have t0: "\<forall>x\<in>set (trace (init_world fs)). \<not> publish_call (fst x)"
    and p0: "pending_error (init_world fs) = None"
    by (simp_all add: init_world_def)
  show ?thesis
    unfolding main_def
    using stage_no_publish(1) stage_ok_clears(1) l2 vac t0 p0 by (rule through_stage)
qed

lemma process_exit_after:
  "then_do a process_exit w = process_exit (snd (a w))" if "fst (a w) = Ok"
  using that by (cases "a w") (simp add: then_do_def)

lemma main_reaches_done:
  "(\<exists>x\<in>set (trace (snd (main cfg ev (init_world fs)))). publish_call (fst x))
   \<longrightarrow> reaches_done (main cfg ev (init_world fs))"
proof (rule through_stages)
  fix w :: world
  assume "pending_error w = None"
  then have ok: "fst (when_do (push (c_git cfg)) (pushToGit cfg ev) w) = Ok"
    by (simp add: when_do_def pushToGit_ok)
  show "(\<exists>x\<in>set (trace (snd (then_do (when_do (push (c_git cfg)) (pushToGit cfg ev))
            process_exit w))). publish_call (fst x))
      \<longrightarrow> reaches_done (then_do (when_do (push (c_git cfg)) (pushToGit cfg ev)) process_exit w)"
    by (simp only: process_exit_after
          [of "when_do (push (c_git cfg)) (pushToGit cfg ev)" w, OF ok])
       (simp add: reaches_done_def process_exit_def record_call_def)
next
  fix r :: "status \<times> world"
  assume "\<forall>x\<in>set (trace (snd r)). \<not> publish_call (fst x)"
  then show "(\<exists>x\<in>set (trace (snd r)). publish_call (fst x)) \<longrightarrow> reaches_done r" by blast
qed

subsection \<open>A rejected git call is logged\<close>

lemma logged_not_thrown:
  "logged_or_thrown r \<Longrightarrow> (\<And>e. fst r \<noteq> Throw e) \<Longrightarrow> failures_logged (trace (snd r))"
  by (simp add: logged_or_thrown_def failures_logged_def)

lemma logged_weaken: "failures_logged (trace (snd r)) \<Longrightarrow> logged_or_thrown r"
  by (simp add: logged_or_thrown_def failures_logged_def)

lemma logs_then_do:
  assumes "logs_or_throws a" and "logs_or_throws b"
  shows "logs_or_throws (then_do a b)"
  unfolding logs_or_throws_def
proof (intro allI impI)
  fix w :: world
  assume w: "failures_logged (trace w)"
  from assms(1) w have ja: "logged_or_thrown (a w)" by (simp add: logs_or_throws_def)
  show "logged_or_thrown (then_do a b w)"
  proof (cases "fst (a w) = Ok")
    case True
    with ja have "failures_logged (trace (snd (a w)))" by (intro logged_not_thrown) simp_all
    with assms(2) have "logged_or_thrown (b (snd (a w)))" by (simp add: logs_or_throws_def)
    with True show ?thesis by (cases "a w") (simp add: then_do_def)
  next
    case False
    then have "then_do a b w = a w"
      by (cases "a w") (auto simp: then_do_def split: status.splits)
    with ja show ?thesis by simp
  qed
qed

lemma logs_when_do: "logs_or_throws a \<Longrightarrow> logs_or_throws (when_do c a)"
  by (cases c) (simp_all add: logs_or_throws_def when_do_def logged_weaken)

lemma logs_git: "logs_or_throws (git_call ev op)"
  by (auto simp: logs_or_throws_def logged_or_thrown_def failures_logged_def git_call_def
      awaiting_def record_call_def split: option.splits)

lemma logs_git_new: "logs_or_throws (git_new ev)"
  by (auto simp: logs_or_throws_def logged_or_thrown_def failures_logged_def git_new_def
      record_call_def)

lemma logs_console_log: "logs_or_throws (console_log msg)"
  by (auto simp: logs_or_throws_def logged_or_thrown_def failures_logged_def console_log_def
      record_call_def)

lemma pushToGit_logs:
  assumes "failures_logged (trace w)"
  shows "failures_logged (trace (snd (pushToGit cfg ev w)))"
proof -
  let ?body = "then_do (git_new ev)
       (then_do (git_call ev (AddConfig ''user.name'' (username (c_git cfg))))
       (then_do (git_call ev (AddConfig ''user.email'' (email (c_git cfg))))
       (then_do (git_call ev GetRemotes)
       (then_do (when_do (''origin'' \<in> set (git_remotes ev))
                   (git_call ev (RemoveRemote ''origin'')))
       (then_do (git_call ev (AddRemote ''origin'' (url (c_git cfg))))
       (then_do (git_call ev (GitAdd ''ips''))
       (then_do (git_call ev (Commit (dec (now_ms ev div 1000))))
       (then_do (git_call ev (Push ''origin'' (branch (c_git cfg))))
                (console_log ''Pushed to repo.'')))))))))"
  have "logs_or_throws ?body"
    by (intro logs_then_do logs_when_do logs_git logs_git_new logs_console_log)
  with assms have j: "logged_or_thrown (?body w)" by (simp add: logs_or_throws_def)
  have p: "pushToGit cfg ev w
      = try_catch ?body (\<lambda>e. console_error ''Error pushing to repo:'' e) w"
    by (simp add: pushToGit_def)
  show ?thesis
  proof (cases "\<exists>e. fst (?body w) = Throw e")
    case True
    then obtain e where e: "fst (?body w) = Throw e" by blast
    then have "try_catch ?body (\<lambda>e. console_error ''Error pushing to repo:'' e) w
        = console_error ''Error pushing to repo:'' e (snd (?body w))"
      by (cases "?body w") (simp add: try_catch_def)
    with j e show ?thesis
      unfolding p
      by (auto simp: logged_or_thrown_def failures_logged_def console_error_def record_call_def)
  next
    case False
    then have "try_catch ?body (\<lambda>e. console_error ''Error pushing to repo:'' e) w = ?body w"
      by (cases "?body w") (auto simp: try_catch_def split: status.splits)
    with logged_not_thrown [OF j] False show ?thesis unfolding p by simp
  qed
qed

lemma no_publish_logged:
  "\<forall>x\<in>set tr. \<not> publish_call (fst x) \<Longrightarrow> failures_logged tr"
  by (fastforce simp: failures_logged_def)

lemma main_failures_logged: "failures_logged (trace (snd (main cfg ev (init_world fs))))"
proof (rule through_stages [where G = "\<lambda>r. failures_logged (trace (snd r))"])
  fix w :: world
  assume w: "\<forall>x\<in>set (trace w). \<not> publish_call (fst x)" and pw: "pending_error w = None"
  have ok: "fst (when_do (push (c_git cfg)) (pushToGit cfg ev) w) = Ok"
    using pw by (simp add: when_do_def pushToGit_ok)
  have "failures_logged (trace (snd (when_do (push (c_git cfg)) (pushToGit cfg ev) w)))"
    using pushToGit_logs [OF no_publish_logged [OF w]] no_publish_logged [OF w]
    by (simp add: when_do_def)
  then show "failures_logged (trace (snd (then_do (when_do (push (c_git cfg))
        (pushToGit cfg ev)) process_exit w)))"
    by (simp only: process_exit_after
          [of "when_do (push (c_git cfg)) (pushToGit cfg ev)" w, OF ok])
       (auto simp: failures_logged_def process_exit_def record_call_def)
next
  fix r :: "status \<times> world"
  assume "\<forall>x\<in>set (trace (snd r)). \<not> publish_call (fst x)"
  then show "failures_logged (trace (snd r))" by (rule no_publish_logged)
qed

subsection \<open>Without a call that fails the run reaches \<open>process.exit()\<close>\<close>

lemma main_exit_entries:
  "\<forall>x\<in>set (trace (snd (main cfg ev (init_world fs)))). fst x = ProcessExit \<longrightarrow> snd x = Exited"
proof -
  have "keeps (\<lambda>x. fst x = ProcessExit \<longrightarrow> snd x = Exited) (main cfg ev)"
    unfolding main_def
    by (intro keeps_then_do keeps_when_do keeps_scanDefaultPort keeps_scanNearPorts
        keeps_scanAllPorts keeps_pushToGit keeps_process_exit) simp_all
  from keeps_init [OF this] show ?thesis .
qed

lemma main_fail_fast: "fail_fast (main cfg ev (init_world fs))"
  using stops_main [of cfg ev] by (simp add: stops_on_failure_def init_world_def)

lemma main_done_if_calls_ok:
  assumes "\<forall>x\<in>set (trace (snd (main cfg ev (init_world fs)))).
      publish_call (fst x) \<or> fst x = ProcessExit \<or> snd x = Ok"
  shows "reaches_done (main cfg ev (init_world fs))"
proof -
  let ?r = "main cfg ev (init_world fs)"
  let ?tr = "trace (snd ?r)"
  from main_fail_fast [of cfg ev fs] main_never_ok [of cfg ev "init_world fs"]
  have ne: "?tr \<noteq> []" and st: "snd (last ?tr) = fst ?r" by (simp_all add: fail_fast_def)
  from ne have mem: "last ?tr \<in> set ?tr" by simp
  from st main_never_ok [of cfg ev "init_world fs"] have "snd (last ?tr) \<noteq> Ok" by simp
  with assms mem have "publish_call (fst (last ?tr)) \<or> fst (last ?tr) = ProcessExit" by blast
  then show ?thesis
  proof
    assume "publish_call (fst (last ?tr))"
    with mem main_reaches_done [of cfg ev fs] show ?thesis by blast
  next
    assume pe: "fst (last ?tr) = ProcessExit"
    with mem main_exit_entries [of cfg ev fs] have "snd (last ?tr) = Exited" by blast
    with pe st ne show ?thesis by (simp add: reaches_done_def prod_eq_iff)
  qed
qed

text \<open>
  The publish step and the collaborators. No failure inside the publish step becomes a
  failure of the run: the status of the run is the one it has with publishing turned off;
  once the publish step has begun the run ends in \<open>process.exit()\<close>; every rejected git
  call has its \<open>console.error\<close> entry. A scan or a validation that does not end \<open>Ok\<close>,
  and a build whose awaited promise is rejected, is the last call of the run.
\<close>

lemma publish_failure_is_contained:
  "fst (main cfg ev (init_world fs)) = fst (main (no_push cfg) ev (init_world fs))
 \<and> ((\<exists>x\<in>set (trace (snd (main cfg ev (init_world fs)))). publish_call (fst x))
      \<longrightarrow> reaches_done (main cfg ev (init_world fs)))
 \<and> failures_logged (trace (snd (main cfg ev (init_world fs))))
 \<and> ((\<forall>x\<in>set (trace (snd (main cfg ev (init_world fs)))).
        publish_call (fst x) \<or> fst x = ProcessExit \<or> snd x = Ok)
      \<longrightarrow> reaches_done (main cfg ev (init_world fs)))
 \<and> fail_fast (main cfg ev (init_world fs))
 \<and> fst (main cfg ev (init_world fs)) \<noteq> Ok"
  using main_status_no_push [of cfg ev fs] main_reaches_done [of cfg ev fs]
    main_failures_logged [of cfg ev fs] main_done_if_calls_ok [of cfg ev fs]
    main_fail_fast [of cfg ev fs] main_never_ok [of cfg ev "init_world fs"]
  by blast

lemma publish_failure_example:
  "reaches_done (main (example_config\<lparr>c_scanPort := False, c_scan24s := False,
        c_scanAllPorts := False\<rparr>) example_env (init_world Map.empty))
 \<and> (ConsoleError ''Error pushing to repo:'' (Other ''index.lock''), Ok)
     \<in> set (trace (snd (main (example_config\<lparr>c_scanPort := False, c_scan24s := False,
          c_scanAllPorts := False\<rparr>) example_env (init_world Map.empty))))"
proof -
  let ?cfg = "example_config\<lparr>c_scanPort := False, c_scan24s := False, c_scanAllPorts := False\<rparr>"
  let ?r = "main ?cfg example_env (init_world Map.empty)"
  have g: "(Git (GitAdd ''ips''), Throw (Other ''index.lock'')) \<in> set (trace (snd ?r))"
    by (simp add: main_def when_do_def then_do_def pushToGit_def try_catch_def git_call_def
        git_new_def git_result_def awaiting_def
        console_error_def console_log_def process_exit_def record_call_def init_world_def
        example_config_def example_env_def Let_def)
  then have p: "\<exists>x\<in>set (trace (snd ?r)). publish_call (fst x)"
    by (rule rev_bexI) simp
  from publish_failure_is_contained [of ?cfg example_env Map.empty]
  have rd: "(\<exists>x\<in>set (trace (snd ?r)). publish_call (fst x)) \<longrightarrow> reaches_done ?r"
    and fl: "failures_logged (trace (snd ?r))"
    by blast+
  from fl g have "(ConsoleError ''Error pushing to repo:'' (Other ''index.lock''), Ok)
      \<in> set (trace (snd ?r))"
    unfolding failures_logged_def by blast
  with rd p show ?thesis by blast
qed

text \<open>
  C9, on the side of the target-list build. Stage 3 is enabled, the log holds two
  records, and the write to \<open>includeFile.txt\<close> fails with \<open>ENOSPC\<close> after the read stream
  has ended. The build has failed, yet its promise is fulfilled: the run goes on and
  starts the scan of Stage 3, and only then does the unhandled \<open>'error'\<close> event of \<open>out\<close>
  end the process. The run does not halt before the later stage starts.
\<close>

theorem C9_failed_build_does_not_halt:
  "uncaught (buildIncludeIps_on (stream_events disk_full_env ''ips''
      [''ips'' \<mapsto> [10, 0, 0, 1, 99, 221, 10, 0, 0, 2, 99, 221]]))
     = Some (SysError ENOSPC Write)
 \<and> trace (snd (main stage3_config disk_full_env
      (init_world [''ips'' \<mapsto> [10, 0, 0, 1, 99, 221, 10, 0, 0, 2, 99, 221]])))
     = [(BuildIncludeIps ''ips'', Ok),
        (Masscan (''sudo masscan -p 1024-25499,25701-65535 --include-file includeFile.txt''
                   @ '' --rate=1000 --excludefile exclude.conf -oJ -'')
           ''ipsUnfiltered_pass3'' ''[3] [Java]'', Crash (SysError ENOSPC Write))]
 \<and> fst (main stage3_config disk_full_env
      (init_world [''ips'' \<mapsto> [10, 0, 0, 1, 99, 221, 10, 0, 0, 2, 99, 221]]))
     = Crash (SysError ENOSPC Write)"
  by (simp add: main_def stage3_config_def example_config_def disk_full_env_def example_env_def
      when_do_def then_do_def scanAllPorts_def call_buildIncludeIps_def call_masscan_def
      awaiting_def await_build_def late_error_def buildIncludeIps_on_def createReadStream_def
      start_def settle_def sudo_prefix_def record_call_def init_world_def Let_def)

end
